theory Spec2Isabelle
  imports Main
begin

section \<open>The grid of mine.c\<close>

text \<open>
  A shallow embedding of the game-state code of \<^verbatim>\<open>src/mine.c\<close>: the data types
  (lines 26-45), the grid functions (lines 53-106) and the key dispatch of \<^verbatim>\<open>main\<close>
  (lines 232-264). Terminal handling and drawing are left out.
\<close>

subsection \<open>Data (lines 26-45)\<close>

datatype Cell_Type = EMPTY | MINE | COUNT

record Cell =
  type :: Cell_Type
  opened :: bool
  flag :: bool

definition COLS :: nat where "COLS = 10"
definition ROWS :: nat where "ROWS = 10"

text \<open>
  \<^verbatim>\<open>Cell cells[ROWS*COLS]\<close> is a list; the C array always has \<open>ROWS * COLS\<close> entries,
  which the theorems below assume of the list. The \<^verbatim>\<open>size_t\<close> fields are natural
  numbers; where the source's unsigned arithmetic could wrap, the model reduces
  modulo \<open>2 ^ 64\<close> (\<open>size_t\<close> of the 64-bit targets the file's header builds for).
  The field \<^verbatim>\<open>open\<close> of the source is named \<open>opened\<close> here.
\<close>

record Grid =
  cells :: "Cell list"
  cur_row :: nat
  cur_col :: nat
  mines_count :: nat
  open_cells_count :: nat

definition size_t :: "nat \<Rightarrow> nat" where
  "size_t n = n mod 2 ^ 64"

text \<open>
  How a call can stop without returning: an \<^verbatim>\<open>assert\<close> fails, or the run is still
  inside the placement loop when the given results of \<^verbatim>\<open>rand()\<close> are used up.
\<close>

datatype stop = AssertFailed | DrawsExhausted

subsection \<open>Random numbers (lines 49-51)\<close>

text \<open>
  The results of the future calls of \<^verbatim>\<open>rand()\<close> are a list of naturals
  (\<^verbatim>\<open>rand()\<close> is never negative); \<open>randi\<close> takes the next one.
\<close>

fun randi :: "nat \<Rightarrow> nat list \<Rightarrow> stop + (nat \<times> nat list)" where
  "randi max_inclusive [] = Inl DrawsExhausted"
| "randi max_inclusive (x # rs) = Inr (x mod (max_inclusive + 1), rs)"

subsection \<open>Cell access (lines 53-62)\<close>

definition cell_at :: "Grid \<Rightarrow> nat \<Rightarrow> nat \<Rightarrow> stop + Cell" where
  "cell_at grid row col =
     (let idx = size_t (row * COLS + col)
      in if idx < ROWS * COLS then Inr (cells grid ! idx) else Inl AssertFailed)"

text \<open>
  \<open>set_cell\<close> has no bounds check. Its only call (line 82) follows a \<open>cell_at\<close> that
  passed at the same position; out of range the C is undefined and the model leaves
  the list as it is.
\<close>

definition set_cell :: "Grid \<Rightarrow> nat \<Rightarrow> nat \<Rightarrow> Cell_Type \<Rightarrow> Grid" where
  "set_cell grid row col c =
     (let idx = size_t (row * COLS + col)
      in grid\<lparr>cells := (cells grid)[idx := (cells grid ! idx)\<lparr>type := c\<rparr>]\<rparr>)"

subsection \<open>clear\_grid (lines 64-73)\<close>

function clear_cells :: "nat \<Rightarrow> Cell list \<Rightarrow> Cell list" where
  "clear_cells i cs =
     (if i < ROWS * COLS
      then clear_cells (i + 1) (cs[i := (cs ! i)\<lparr>type := EMPTY, flag := False, opened := False\<rparr>])
      else cs)"
  by pat_completeness auto
termination
  by (relation "measure (\<lambda>(i, cs). ROWS * COLS - i)") auto

definition clear_grid :: "Grid \<Rightarrow> Grid" where
  "clear_grid grid =
     grid\<lparr>cells := clear_cells 0 (cells grid), cur_row := 0, cur_col := 0,
          open_cells_count := 0\<rparr>"

subsection \<open>randomize\_grid and init\_grid (lines 75-92)\<close>

text \<open>
  The loop of \<open>randomize_grid\<close>, with \<open>placed\<close> as its argument. \<open>placed\<close> stays below
  \<open>mines_count\<close>, so \<open>placed++\<close> does not wrap.
\<close>

function randomize_loop :: "nat \<Rightarrow> Grid \<Rightarrow> nat list \<Rightarrow> stop + (Grid \<times> nat list)" where
  "randomize_loop placed grid rs =
     (if placed < mines_count grid then
        (case randi (ROWS - 1) rs of
           Inl e \<Rightarrow> Inl e
         | Inr (rr, rs1) \<Rightarrow>
            (case randi (COLS - 1) rs1 of
               Inl e \<Rightarrow> Inl e
             | Inr (cc, rs2) \<Rightarrow>
                (case cell_at grid rr cc of
                   Inl e \<Rightarrow> Inl e
                 | Inr cell \<Rightarrow>
                    if type cell \<noteq> MINE
                    then randomize_loop (placed + 1) (set_cell grid rr cc MINE) rs2
                    else randomize_loop placed grid rs2)))
      else Inr (grid, rs))"
  by pat_completeness auto
termination
proof (relation "measure (\<lambda>(placed, grid, rs). length rs)")
  show "wf (measure (\<lambda>(placed, grid, rs). length rs))" by simp
next
  fix placed :: nat and grid rs x2 rr rs1 x2a cc rs2 x2b
  assume "randi (ROWS - 1) rs = Inr x2" "(rr, rs1) = x2"
    "randi (COLS - 1) rs1 = Inr x2a" "(cc, rs2) = x2a"
  then have "length rs2 < length rs"
    by (cases rs; cases rs1) auto
  then show "((placed + 1, set_cell grid rr cc MINE, rs2), placed, grid, rs)
      \<in> measure (\<lambda>(placed, grid, rs). length rs)"
    by simp
next
  fix placed :: nat and grid :: Grid and rs x2 rr rs1 x2a cc rs2 x2b
  assume "randi (ROWS - 1) rs = Inr x2" "(rr, rs1) = x2"
    "randi (COLS - 1) rs1 = Inr x2a" "(cc, rs2) = x2a"
  then have "length rs2 < length rs"
    by (cases rs; cases rs1) auto
  then show "((placed, grid, rs2), placed, grid, rs)
      \<in> measure (\<lambda>(placed, grid, rs). length rs)"
    by simp
qed

definition randomize_grid :: "Grid \<Rightarrow> nat list \<Rightarrow> stop + (Grid \<times> nat list)" where
  "randomize_grid grid rs = randomize_loop 0 grid rs"

definition init_grid :: "Grid \<Rightarrow> nat \<Rightarrow> nat list \<Rightarrow> stop + (Grid \<times> nat list)" where
  "init_grid grid mines_count' rs =
     randomize_grid ((clear_grid grid)\<lparr>mines_count := mines_count'\<rparr>) rs"

subsection \<open>count\_nbors (lines 94-106)\<close>

text \<open>
  The conversion \<^verbatim>\<open>(int)row\<close>: the value itself when it fits, and otherwise (where C
  leaves the result to the implementation) the value reduced to 32-bit two's
  complement, as gcc, clang and MSVC do.
\<close>

definition to_int :: "nat \<Rightarrow> int" where
  "to_int n = (let m = int (n mod 2 ^ 32) in if m < 2 ^ 31 then m else m - 2 ^ 32)"

text \<open>
  The body of the inner loop for one \<open>dy\<close> and \<open>dx\<close>. An earlier failed assertion is
  passed on. \<open>r\<close> and \<open>c\<close> are computed on unbounded integers: the only sum that does
  not fit an \<^verbatim>\<open>int\<close> is \<open>2 ^ 31 - 1 + 1\<close>, which the bounds test skips here.
\<close>

definition nbor_step :: "Grid \<Rightarrow> nat \<Rightarrow> nat \<Rightarrow> int \<Rightarrow> stop + nat \<Rightarrow> int \<Rightarrow> stop + nat" where
  "nbor_step grid row col dy acc dx =
     (case acc of
        Inl e \<Rightarrow> Inl e
      | Inr nbors \<Rightarrow>
          if dx = 0 \<and> dy = 0 then Inr nbors
          else
            let r = to_int row + dy; c = to_int col + dx
            in if r < 0 \<or> r \<ge> int ROWS \<or> c < 0 \<or> c \<ge> int COLS then Inr nbors
               else (case cell_at grid (nat r) (nat c) of
                       Inl e \<Rightarrow> Inl e
                     | Inr cell \<Rightarrow> if type cell = MINE then Inr (nbors + 1) else Inr nbors))"

text \<open>Both loops run their variable through \<open>-1, 0, 1\<close>.\<close>

definition count_nbors :: "Grid \<Rightarrow> nat \<Rightarrow> nat \<Rightarrow> stop + nat" where
  "count_nbors grid row col =
     foldl (\<lambda>acc dy. foldl (nbor_step grid row col dy) acc [-1, 0, 1]) (Inr 0) [-1, 0, 1]"

subsection \<open>The keys of main (lines 232-264)\<close>

text \<open>
  The cursor keys. The spec names them \<open>move_cursor\<close> with a direction: \<open>Right\<close> is
  the case \<^verbatim>\<open>'d'\<close>, \<open>Left\<close> is \<^verbatim>\<open>'a'\<close>, \<open>Down\<close> is \<^verbatim>\<open>'s'\<close> and \<open>Up\<close> is \<^verbatim>\<open>'w'\<close>.
  Each change is guarded, so none wraps.
\<close>

datatype Direction = Up | Down | Left | Right

fun move_cursor :: "Direction \<Rightarrow> Grid \<Rightarrow> Grid" where
  "move_cursor Right grid =
     (if cur_col grid < COLS - 1 then grid\<lparr>cur_col := cur_col grid + 1\<rparr> else grid)"
| "move_cursor Left grid =
     (if cur_col grid > 0 then grid\<lparr>cur_col := cur_col grid - 1\<rparr> else grid)"
| "move_cursor Down grid =
     (if cur_row grid < ROWS - 1 then grid\<lparr>cur_row := cur_row grid + 1\<rparr> else grid)"
| "move_cursor Up grid =
     (if cur_row grid > 0 then grid\<lparr>cur_row := cur_row grid - 1\<rparr> else grid)"

text \<open>
  The block that opens one cell and counts it; the source has it twice
  (lines 240-243 and 249-252).
\<close>

definition open_cell :: "nat \<Rightarrow> Grid \<Rightarrow> Grid" where
  "open_cell i grid =
     (if \<not> opened (cells grid ! i)
      then grid\<lparr>cells := (cells grid)[i := (cells grid ! i)\<lparr>opened := True\<rparr>],
                open_cells_count := size_t (open_cells_count grid + 1)\<rparr>
      else grid)"

text \<open>The two loops of "reveal all" (lines 246-254), over \<open>c\<close> and over \<open>r\<close>.\<close>

function reveal_cols :: "nat \<Rightarrow> nat \<Rightarrow> Grid \<Rightarrow> Grid" where
  "reveal_cols r c grid =
     (if c < COLS then reveal_cols r (c + 1) (open_cell (r * COLS + c) grid) else grid)"
  by pat_completeness auto
termination
  by (relation "measure (\<lambda>(r, c, grid). COLS - c)") auto

function reveal_rows :: "nat \<Rightarrow> Grid \<Rightarrow> Grid" where
  "reveal_rows r grid =
     (if r < ROWS then reveal_rows (r + 1) (reveal_cols r 0 grid) else grid)"
  by pat_completeness auto
termination
  by (relation "measure (\<lambda>(r, grid). ROWS - r)") auto

text \<open>
  The case \<^verbatim>\<open>' '\<close> (lines 237-256), which the spec calls \<open>reveal_at_cursor\<close>. The source
  returns nothing. The outcome returned here names the blocks that ran: \<open>Detonated\<close>
  when the reveal-all block (line 244) ran, otherwise \<open>Opened\<close> when the block of
  line 240 opened the cell, otherwise \<open>AlreadyOpen\<close>.
\<close>

datatype RevealOutcome = AlreadyOpen | Opened | Detonated

definition reveal_at_cursor :: "Grid \<Rightarrow> stop + (Grid \<times> RevealOutcome)" where
  "reveal_at_cursor grid =
     (let idx = size_t (cur_row grid * COLS + cur_col grid)
      in if \<not> idx < COLS * ROWS then Inl AssertFailed
         else
           let was_open = opened (cells grid ! idx);
               grid1 = open_cell idx grid
           in if type (cells grid1 ! idx) = MINE
              then Inr (reveal_rows 0 grid1, Detonated)
              else Inr (grid1, if was_open then AlreadyOpen else Opened))"

text \<open>The case \<^verbatim>\<open>'f'\<close> (lines 257-261).\<close>

definition toggle_flag_at_cursor :: "Grid \<Rightarrow> stop + Grid" where
  "toggle_flag_at_cursor grid =
     (let idx = size_t (cur_row grid * COLS + cur_col grid)
      in if \<not> idx < COLS * ROWS then Inl AssertFailed
         else Inr (grid\<lparr>cells := (cells grid)[idx := (cells grid ! idx)\<lparr>flag := \<not> flag (cells grid ! idx)\<rparr>]\<rparr>))"

text \<open>
  One pass through the \<^verbatim>\<open>switch\<close>: the grid, the remaining draws and the \<open>quit\<close>
  flag afterwards. \<open>max_mines\<close> is the local of \<open>main\<close> (25 there).
\<close>

definition key_step :: "nat \<Rightarrow> char \<Rightarrow> Grid \<Rightarrow> nat list \<Rightarrow> stop + (Grid \<times> nat list \<times> bool)" where
  "key_step max_mines ch grid rs =
     (if ch = CHR ''d'' then Inr (move_cursor Right grid, rs, False)
      else if ch = CHR ''a'' then Inr (move_cursor Left grid, rs, False)
      else if ch = CHR ''s'' then Inr (move_cursor Down grid, rs, False)
      else if ch = CHR ''w'' then Inr (move_cursor Up grid, rs, False)
      else if ch = CHR '' '' then
        (case reveal_at_cursor grid of
           Inl e \<Rightarrow> Inl e
         | Inr (grid', out) \<Rightarrow> Inr (grid', rs, False))
      else if ch = CHR ''f'' then
        (case toggle_flag_at_cursor grid of
           Inl e \<Rightarrow> Inl e
         | Inr grid' \<Rightarrow> Inr (grid', rs, False))
      else if ch = CHR ''q'' then Inr (grid, rs, True)
      else if ch = CHR ''r'' then
        (case init_grid grid max_mines rs of
           Inl e \<Rightarrow> Inl e
         | Inr (grid', rs') \<Rightarrow> Inr (grid', rs', False))
      else Inr (grid, rs, False))"

text \<open>
  The grids the program can hold: the one \<open>init_grid\<close> returns at the start of
  \<open>main\<close> (from whatever the uninitialised local held), and those after any key.
\<close>

inductive reachable :: "nat \<Rightarrow> Grid \<Rightarrow> bool" for max_mines :: nat where
  reachable_init:
    "length (cells g0) = ROWS * COLS \<Longrightarrow> init_grid g0 max_mines rs = Inr (g, rs')
     \<Longrightarrow> reachable max_mines g"
| reachable_key:
    "reachable max_mines g \<Longrightarrow> key_step max_mines ch g rs = Inr (g', rs', q)
     \<Longrightarrow> reachable max_mines g'"

section \<open>Notions for the properties\<close>

text \<open>A cell as \<open>clear_grid\<close> leaves it.\<close>

definition blank :: Cell where
  "blank = \<lparr>type = EMPTY, opened = False, flag = False\<rparr>"

text \<open>How many cells of a list have a given kind.\<close>

definition count_type :: "Cell_Type \<Rightarrow> Cell list \<Rightarrow> nat" where
  "count_type t cs = length (filter (\<lambda>c. type c = t) cs)"

text \<open>
  What a run of the placement loop that started with \<open>placed\<close> and returned \<open>g'\<close>
  has done to the grid \<open>g\<close>: it placed the missing \<open>mines_count g - placed\<close> mines, each
  on a cell that held none, and touched nothing else.
\<close>

definition placed_from :: "nat \<Rightarrow> Grid \<Rightarrow> Grid \<Rightarrow> bool" where
  "placed_from placed g g' \<longleftrightarrow>
     length (cells g') = length (cells g) \<and>
     mines_count g' = mines_count g \<and> cur_row g' = cur_row g \<and> cur_col g' = cur_col g \<and>
     open_cells_count g' = open_cells_count g \<and>
     count_type MINE (cells g') + placed = count_type MINE (cells g) + mines_count g \<and>
     (\<forall>i < length (cells g). opened (cells g' ! i) = opened (cells g ! i) \<and>
         flag (cells g' ! i) = flag (cells g ! i) \<and>
         (type (cells g' ! i) = MINE \<or> type (cells g' ! i) = type (cells g ! i)))"

text \<open>
  The cells a list of draws picks: the placement loop takes the draws two at a time,
  a row and a column.
\<close>

fun picks :: "nat list \<Rightarrow> nat list" where
  "picks (a # b # rs) = (a mod ROWS * COLS + b mod COLS) # picks rs"
| "picks rs = []"

text \<open>The indices of the cells that hold a mine.\<close>

definition mine_cells :: "Grid \<Rightarrow> nat set" where
  "mine_cells g = {i. i < ROWS * COLS \<and> type (cells g ! i) = MINE}"

text \<open>The index of the cell under the cursor, as lines 238 and 258 compute it.\<close>

definition cursor_idx :: "Grid \<Rightarrow> nat" where
  "cursor_idx g = cur_row g * COLS + cur_col g"

text \<open>
  A grid state: the array has its \<open>ROWS * COLS\<close> cells, the cursor is inside the grid
  and \<open>open_cells_count\<close> is the number of opened cells (the invariants the spec
  gives for its Grid).
\<close>

definition grid_ok :: "Grid \<Rightarrow> bool" where
  "grid_ok g \<longleftrightarrow>
     length (cells g) = ROWS * COLS \<and> cur_row g < ROWS \<and> cur_col g < COLS \<and>
     open_cells_count g = length (filter opened (cells g))"

text \<open>
  What the opening block and the reveal-all loops leave alone: the size of the
  array, the cursor, the number of mines, every cell's kind and flag; and they keep
  \<open>open_cells_count\<close> equal to the number of opened cells if it was.
\<close>

definition opening_of :: "Grid \<Rightarrow> Grid \<Rightarrow> bool" where
  "opening_of g g' \<longleftrightarrow>
     length (cells g') = length (cells g) \<and>
     cur_row g' = cur_row g \<and> cur_col g' = cur_col g \<and> mines_count g' = mines_count g \<and>
     (\<forall>j < length (cells g). type (cells g' ! j) = type (cells g ! j) \<and>
        flag (cells g' ! j) = flag (cells g ! j)) \<and>
     (open_cells_count g = length (filter opened (cells g)) \<longrightarrow>
        open_cells_count g' = length (filter opened (cells g')))"

text \<open>If some mine is opened, then every cell is, and all are counted.\<close>

definition detonated_all :: "Grid \<Rightarrow> bool" where
  "detonated_all g \<longleftrightarrow>
     ((\<exists>c \<in> set (cells g). type c = MINE \<and> opened c) \<longrightarrow>
        (\<forall>c \<in> set (cells g). opened c) \<and> open_cells_count g = ROWS * COLS)"

text \<open>A grid state with that property.\<close>

definition good :: "Grid \<Rightarrow> bool" where
  "good g \<longleftrightarrow> grid_ok g \<and> detonated_all g"

text \<open>The cursor stands at the edge a move in direction \<open>d\<close> runs against.\<close>

definition at_boundary :: "Direction \<Rightarrow> Grid \<Rightarrow> bool" where
  "at_boundary d g =
     (case d of Up \<Rightarrow> cur_row g = 0 | Down \<Rightarrow> cur_row g = ROWS - 1
      | Left \<Rightarrow> cur_col g = 0 | Right \<Rightarrow> cur_col g = COLS - 1)"

text \<open>The key of each direction in the \<^verbatim>\<open>switch\<close>.\<close>

definition dir_key :: "Direction \<Rightarrow> char" where
  "dir_key d = (case d of Up \<Rightarrow> CHR ''w'' | Down \<Rightarrow> CHR ''s'' | Left \<Rightarrow> CHR ''a'' | Right \<Rightarrow> CHR ''d'')"

subsection \<open>Neighbours\<close>

text \<open>The pairs \<open>(dy, dx)\<close> the two loops of \<open>count_nbors\<close> run through, in their order.\<close>

definition offsets :: "(int \<times> int) list" where
  "offsets = List.product [-1, 0, 1] [-1, 0, 1]"

text \<open>
  The pairs that pass the tests of lines 98 and 101, so that line 102 looks at the
  cell at \<open>nbor_pos\<close>.
\<close>

definition considered :: "nat \<Rightarrow> nat \<Rightarrow> int \<times> int \<Rightarrow> bool" where
  "considered row col = (\<lambda>(dy, dx). \<not> (dx = 0 \<and> dy = 0) \<and>
     0 \<le> to_int row + dy \<and> to_int row + dy < int ROWS \<and>
     0 \<le> to_int col + dx \<and> to_int col + dx < int COLS)"

definition nbor_pos :: "nat \<Rightarrow> nat \<Rightarrow> int \<times> int \<Rightarrow> nat \<times> nat" where
  "nbor_pos row col = (\<lambda>(dy, dx). (nat (to_int row + dy), nat (to_int col + dx)))"

text \<open>The cell at a position is a mine.\<close>

definition mine_at :: "Grid \<Rightarrow> nat \<times> nat \<Rightarrow> bool" where
  "mine_at g = (\<lambda>(r, c). type (cells g ! (r * COLS + c)) = MINE)"

text \<open>
  Following the spec's words, not the source: the positions of the grid that are
  adjacent to \<open>(row, col)\<close>, diagonals included, without \<open>(row, col)\<close> itself.
\<close>

definition moore_nbors :: "nat \<Rightarrow> nat \<Rightarrow> (nat \<times> nat) list" where
  "moore_nbors row col =
     filter (\<lambda>(r, c). (r, c) \<noteq> (row, col) \<and> r \<le> row + 1 \<and> row \<le> r + 1 \<and>
                c \<le> col + 1 \<and> col \<le> c + 1)
       (List.product [0..<ROWS] [0..<COLS])"

subsection \<open>Concrete grids and draws\<close>

definition blank_grid :: Grid where
  "blank_grid = \<lparr>cells = replicate (ROWS * COLS) blank, cur_row = 0, cur_col = 0,
     mines_count = 0, open_cells_count = 0\<rparr>"

text \<open>A grid in the middle of a game: everything opened and flagged, the cursor at (3, 4).\<close>

definition played :: Grid where
  "played = \<lparr>cells = replicate (ROWS * COLS) \<lparr>type = EMPTY, opened = True, flag = True\<rparr>,
     cur_row = 3, cur_col = 4, mines_count = 25, open_cells_count = 100\<rparr>"

text \<open>The draws that pick the cells \<open>k\<close>, \<open>k + 1\<close>, ... of the grid in order.\<close>

definition draws_from :: "nat \<Rightarrow> nat list" where
  "draws_from k = concat (map (\<lambda>i. [i div COLS, i mod COLS]) [k..<ROWS * COLS])"

text \<open>A cleared grid that is to hold \<open>ROWS * COLS\<close> mines, with the first \<open>k\<close> placed.\<close>

definition filled :: "nat \<Rightarrow> Grid" where
  "filled k = \<lparr>cells = replicate k (blank\<lparr>type := MINE\<rparr>) @ replicate (ROWS * COLS - k) blank,
     cur_row = 0, cur_col = 0, mines_count = ROWS * COLS, open_cells_count = 0\<rparr>"

text \<open>
  A cleared grid with its one mine under the cursor; the same after a move to the
  right and a reveal there; and the first with every cell opened.
\<close>

definition one_mine :: Grid where
  "one_mine = \<lparr>cells = (replicate (ROWS * COLS) blank)[0 := blank\<lparr>type := MINE\<rparr>],
     cur_row = 0, cur_col = 0, mines_count = 1, open_cells_count = 0\<rparr>"

definition opened_one :: Grid where
  "opened_one = \<lparr>cells = (replicate (ROWS * COLS) blank)
        [0 := blank\<lparr>type := MINE\<rparr>, 1 := blank\<lparr>opened := True\<rparr>],
     cur_row = 0, cur_col = 1, mines_count = 1, open_cells_count = 1\<rparr>"

definition exploded :: Grid where
  "exploded = \<lparr>cells = (replicate (ROWS * COLS) (blank\<lparr>opened := True\<rparr>))
        [0 := blank\<lparr>type := MINE, opened := True\<rparr>],
     cur_row = 0, cur_col = 0, mines_count = 1, open_cells_count = ROWS * COLS\<rparr>"

text \<open>A cleared grid with mines at (0, 0) and (3, 4).\<close>

definition placed_two :: Grid where
  "placed_two = \<lparr>cells = (replicate (ROWS * COLS) blank)
        [0 := blank\<lparr>type := MINE\<rparr>, 34 := blank\<lparr>type := MINE\<rparr>],
     cur_row = 0, cur_col = 0, mines_count = 2, open_cells_count = 0\<rparr>"


section \<open>Lemmas\<close>

subsection \<open>Counting cells, clearing and placing\<close>

declare clear_cells.simps [simp del] randomize_loop.simps [simp del]

lemma filter_upd_gain:
  "i < length xs \<Longrightarrow> \<not> P (xs ! i) \<Longrightarrow> P x \<Longrightarrow> length (filter P (xs[i := x])) = Suc (length (filter P xs))"
  by (induction xs arbitrary: i) (auto split: nat.splits simp: nth_Cons')

lemma filter_upd_same:
  "P (xs ! i) = P x \<Longrightarrow> length (filter P (xs[i := x])) = length (filter P xs)"
  by (induction xs arbitrary: i) (auto split: nat.splits simp: nth_Cons')

lemma clear_cells_length: "length (clear_cells i cs) = length cs"
  by (induction i cs rule: clear_cells.induct) (subst clear_cells.simps, simp)

lemma clear_cells_nth:
  "j < length cs \<Longrightarrow> length cs = ROWS * COLS \<Longrightarrow>
   clear_cells i cs ! j = (if i \<le> j then blank else cs ! j)"
proof (induction i cs rule: clear_cells.induct)
  case (1 i cs)
  show ?case
  proof (cases "i < ROWS * COLS")
    case True
    with 1 show ?thesis
      by (subst clear_cells.simps) (auto simp: blank_def nth_list_update)
  next
    case False
    with 1 show ?thesis
      by (subst clear_cells.simps) auto
  qed
qed

lemma clear_cells_all:
  "length cs = ROWS * COLS \<Longrightarrow> clear_cells 0 cs = replicate (ROWS * COLS) blank"
  by (rule nth_equalityI) (simp_all add: clear_cells_length clear_cells_nth)

lemma randi_bound: "randi m rs = Inr (x, rs') \<Longrightarrow> x \<le> m"
  by (cases rs) auto

lemma cell_idx: "rr \<le> ROWS - 1 \<Longrightarrow> cc \<le> COLS - 1 \<Longrightarrow>
  size_t (rr * COLS + cc) = rr * COLS + cc \<and> rr * COLS + cc < ROWS * COLS"
  by (auto simp: size_t_def ROWS_def COLS_def)

lemma set_cell_fields:
  "length (cells (set_cell g r c t)) = length (cells g)"
  "mines_count (set_cell g r c t) = mines_count g"
  "cur_row (set_cell g r c t) = cur_row g"
  "cur_col (set_cell g r c t) = cur_col g"
  "open_cells_count (set_cell g r c t) = open_cells_count g"
  by (simp_all add: set_cell_def Let_def)

lemma set_cell_mines:
  assumes "size_t (r * COLS + c) < length (cells g)"
    and "type (cells g ! size_t (r * COLS + c)) \<noteq> MINE"
  shows "count_type MINE (cells (set_cell g r c MINE)) = Suc (count_type MINE (cells g))"
  using assms by (simp add: set_cell_def Let_def count_type_def filter_upd_gain)

lemma set_cell_nth:
  "i < length (cells g) \<Longrightarrow>
   cells (set_cell g r c t) ! i =
     (if i = size_t (r * COLS + c) then (cells g ! i)\<lparr>type := t\<rparr> else cells g ! i)"
  by (simp add: set_cell_def Let_def nth_list_update)

lemma randomize_loop_placed:
  "randomize_loop placed g rs = Inr (g', rs') \<Longrightarrow> length (cells g) = ROWS * COLS \<Longrightarrow>
   placed \<le> mines_count g \<Longrightarrow> placed_from placed g g'"
proof (induction placed g rs rule: randomize_loop.induct)
  case (1 placed grid rs)
  show ?case
  proof (cases "placed < mines_count grid")
    case False
    with "1.prems" show ?thesis
      by (simp add: randomize_loop.simps placed_from_def)
  next
    case True
    from "1.prems"(1) True obtain rr rs1 cc rs2 cell where
      r1: "randi (ROWS - 1) rs = Inr (rr, rs1)" and
      r2: "randi (COLS - 1) rs1 = Inr (cc, rs2)" and
      ca: "cell_at grid rr cc = Inr cell"
      by (subst (asm) randomize_loop.simps) (auto split: sum.splits)
    have idx: "size_t (rr * COLS + cc) = rr * COLS + cc" "rr * COLS + cc < ROWS * COLS"
      using cell_idx randi_bound[OF r1] randi_bound[OF r2] by auto
    have cell: "cell = cells grid ! (rr * COLS + cc)"
      using ca idx by (simp add: cell_at_def Let_def)
    show ?thesis
    proof (cases "type cell \<noteq> MINE")
      case True
      let ?g = "set_cell grid rr cc MINE"
      have run: "randomize_loop (placed + 1) ?g rs2 = Inr (g', rs')"
        using "1.prems"(1) \<open>placed < mines_count grid\<close> r1 r2 ca True
        by (subst (asm) randomize_loop.simps) simp
      have "placed_from (placed + 1) ?g g'"
        using "1.IH"(1)[OF \<open>placed < mines_count grid\<close> r1 refl r2 refl ca True run]
          "1.prems" \<open>placed < mines_count grid\<close>
        by (simp add: set_cell_fields)
      moreover have "count_type MINE (cells ?g) = Suc (count_type MINE (cells grid))"
        using set_cell_mines[of rr cc grid] idx cell True "1.prems"(2) by simp
      ultimately show ?thesis
        using idx "1.prems"(2)
        by (auto simp: placed_from_def set_cell_fields set_cell_nth)
    next
      case False
      have run: "randomize_loop placed grid rs2 = Inr (g', rs')"
        using "1.prems"(1) \<open>placed < mines_count grid\<close> r1 r2 ca False
        by (subst (asm) randomize_loop.simps) simp
      show ?thesis
        using "1.IH"(2)[OF \<open>placed < mines_count grid\<close> r1 refl r2 refl ca False run]
          "1.prems" by simp
    qed
  qed
qed

lemma not_all_mines:
  assumes "count_type MINE cs < length cs"
  shows "\<exists>i < length cs. type (cs ! i) \<noteq> MINE"
proof (rule ccontr)
  assume "\<not> ?thesis"
  then have "\<forall>c \<in> set cs. type c = MINE"
    by (auto simp: in_set_conv_nth)
  then have "filter (\<lambda>c. type c = MINE) cs = cs"
    by (simp add: filter_True)
  with assms show False
    by (simp add: count_type_def)
qed

lemma randomize_loop_draw:
  assumes "placed < mines_count g" and "i < ROWS * COLS" and "length (cells g) = ROWS * COLS"
  shows "randomize_loop placed g (i div COLS # i mod COLS # rs) =
     (if type (cells g ! i) \<noteq> MINE
      then randomize_loop (placed + 1) (set_cell g (i div COLS) (i mod COLS) MINE) rs
      else randomize_loop placed g rs)"
proof -
  have "i div COLS mod (ROWS - 1 + 1) = i div COLS" "i mod COLS mod (COLS - 1 + 1) = i mod COLS"
    using assms(2) by (auto simp: ROWS_def COLS_def)
  moreover have "size_t (i div COLS * COLS + i mod COLS) = i"
    using assms(2) by (simp add: size_t_def ROWS_def COLS_def)
  ultimately show ?thesis
    using assms by (subst randomize_loop.simps) (simp add: cell_at_def Let_def)
qed

lemma randomize_loop_can_return:
  "length (cells g) = ROWS * COLS \<Longrightarrow> mines_count g - placed = k \<Longrightarrow>
   count_type MINE (cells g) + k \<le> ROWS * COLS \<Longrightarrow>
   \<exists>rs g' rs'. randomize_loop placed g rs = Inr (g', rs')"
proof (induction k arbitrary: placed g)
  case 0
  then show ?case by (subst randomize_loop.simps) simp
next
  case (Suc k)
  then have lt: "placed < mines_count g" by simp
  from Suc.prems have "count_type MINE (cells g) < length (cells g)" by simp
  then obtain i where i: "i < ROWS * COLS" "type (cells g ! i) \<noteq> MINE"
    using not_all_mines Suc.prems(1) by metis
  let ?g = "set_cell g (i div COLS) (i mod COLS) MINE"
  have idx: "size_t (i div COLS * COLS + i mod COLS) = i"
    using i(1) by (simp add: size_t_def ROWS_def COLS_def)
  have "count_type MINE (cells ?g) = Suc (count_type MINE (cells g))"
    using set_cell_mines[of "i div COLS" "i mod COLS" g] idx i Suc.prems(1) by simp
  with Suc.prems have "\<exists>rs g' rs'. randomize_loop (placed + 1) ?g rs = Inr (g', rs')"
    by (intro Suc.IH) (simp_all add: set_cell_fields)
  then obtain rs g' rs' where "randomize_loop (placed + 1) ?g rs = Inr (g', rs')" by blast
  then have "randomize_loop placed g (i div COLS # i mod COLS # rs) = Inr (g', rs')"
    using randomize_loop_draw[OF lt i(1) Suc.prems(1)] i(2) by simp
  then show ?case by blast
qed

lemma randomize_loop_no_assert:
  "length (cells g) = ROWS * COLS \<Longrightarrow> randomize_loop placed g rs \<noteq> Inl AssertFailed"
proof (induction placed g rs rule: randomize_loop.induct)
  case (1 placed grid rs)
  show ?case
  proof
    assume a: "randomize_loop placed grid rs = Inl AssertFailed"
    then have lt: "placed < mines_count grid"
      by (subst (asm) randomize_loop.simps) (simp split: if_splits)
    from a lt obtain rr rs1 where r1: "randi (ROWS - 1) rs = Inr (rr, rs1)"
      by (subst (asm) randomize_loop.simps) (cases rs, auto)
    from a lt r1 obtain cc rs2 where r2: "randi (COLS - 1) rs1 = Inr (cc, rs2)"
      by (subst (asm) randomize_loop.simps) (cases rs1, auto)
    have idx: "size_t (rr * COLS + cc) = rr * COLS + cc" "rr * COLS + cc < ROWS * COLS"
      using cell_idx randi_bound[OF r1] randi_bound[OF r2] by auto
    then have ca: "cell_at grid rr cc = Inr (cells grid ! (rr * COLS + cc))"
      by (simp add: cell_at_def Let_def)
    show False
    proof (cases "type (cells grid ! (rr * COLS + cc)) \<noteq> MINE")
      case True
      then have "randomize_loop (placed + 1) (set_cell grid rr cc MINE) rs2 = Inl AssertFailed"
        using a lt r1 r2 ca by (subst (asm) randomize_loop.simps) simp
      then show False
        using "1.IH"(1)[OF lt r1 refl r2 refl ca True] "1.prems" by (simp add: set_cell_fields)
    next
      case False
      then have "randomize_loop placed grid rs2 = Inl AssertFailed"
        using a lt r1 r2 ca by (subst (asm) randomize_loop.simps) simp
      then show False
        using "1.IH"(2)[OF lt r1 refl r2 refl ca False] "1.prems" by simp
    qed
  qed
qed

lemma clear_grid_fields:
  assumes "length (cells g) = ROWS * COLS"
  shows "cells (clear_grid g) = replicate (ROWS * COLS) blank"
    "cur_row (clear_grid g) = 0" "cur_col (clear_grid g) = 0"
    "open_cells_count (clear_grid g) = 0" "mines_count (clear_grid g) = mines_count g"
  using assms by (simp_all add: clear_grid_def clear_cells_all)

lemma blank_fields: "type blank = EMPTY" "\<not> opened blank" "\<not> flag blank"
  by (simp_all add: blank_def)

lemma count_type_blank:
  "count_type MINE (replicate n blank) = 0" "count_type EMPTY (replicate n blank) = n"
  by (simp_all add: count_type_def blank_def)

lemma init_grid_result:
  assumes "init_grid g n rs = Inr (g', rs')" and "length (cells g) = ROWS * COLS"
  shows "length (cells g') = ROWS * COLS" "count_type MINE (cells g') = n"
    "mines_count g' = n" "cur_row g' = 0" "cur_col g' = 0" "open_cells_count g' = 0"
    "\<forall>i < ROWS * COLS. \<not> opened (cells g' ! i) \<and> \<not> flag (cells g' ! i) \<and>
        (type (cells g' ! i) = MINE \<or> type (cells g' ! i) = EMPTY)"
proof -
  let ?g = "(clear_grid g)\<lparr>mines_count := n\<rparr>"
  have "placed_from 0 ?g g'"
    using assms by (intro randomize_loop_placed[where rs = rs and rs' = rs'])
      (simp_all add: init_grid_def randomize_grid_def clear_grid_fields)
  then show "length (cells g') = ROWS * COLS" "count_type MINE (cells g') = n"
    "mines_count g' = n" "cur_row g' = 0" "cur_col g' = 0" "open_cells_count g' = 0"
    "\<forall>i < ROWS * COLS. \<not> opened (cells g' ! i) \<and> \<not> flag (cells g' ! i) \<and>
        (type (cells g' ! i) = MINE \<or> type (cells g' ! i) = EMPTY)"
    using assms(2)
    by (simp_all add: placed_from_def clear_grid_fields count_type_blank blank_fields)
qed

lemma count_empty:
  assumes "\<forall>i < length cs. type (cs ! i) = MINE \<or> type (cs ! i) = EMPTY"
  shows "count_type EMPTY cs = length cs - count_type MINE cs"
proof -
  have "filter (\<lambda>c. type c = EMPTY) cs = filter (\<lambda>c. \<not> type c = MINE) cs"
    using assms by (intro filter_cong) (auto simp: in_set_conv_nth)
  then show ?thesis
    using sum_length_filter_compl[of "\<lambda>c. type c = MINE" cs]
    by (simp add: count_type_def)
qed

lemma init_grid_two: "init_grid blank_grid 2 [0, 0, 10, 20, 3, 4] =
   Inr (set_cell (set_cell ((clear_grid blank_grid)\<lparr>mines_count := 2\<rparr>) 0 0 MINE) 3 4 MINE, [])"
  by (simp add: init_grid_def randomize_grid_def randomize_loop.simps cell_at_def
      clear_grid_fields blank_grid_def set_cell_def size_t_def ROWS_def COLS_def blank_fields Let_def)

subsection \<open>Filling the whole grid\<close>

lemma filled_step:
  assumes "k < ROWS * COLS"
  shows "set_cell (filled k) (k div COLS) (k mod COLS) MINE = filled (k + 1)"
proof -
  have idx: "size_t (k div COLS * COLS + k mod COLS) = k" "size_t k = k"
    using assms by (simp_all add: size_t_def ROWS_def COLS_def)
  have "(replicate k (blank\<lparr>type := MINE\<rparr>) @ replicate (ROWS * COLS - k) blank)
          [k := blank\<lparr>type := MINE\<rparr>] =
        replicate (k + 1) (blank\<lparr>type := MINE\<rparr>) @ replicate (ROWS * COLS - (k + 1)) blank"
    using assms by (intro nth_equalityI) (auto simp: nth_append nth_list_update nth_Cons')
  then show ?thesis
    using assms by (simp add: set_cell_def Let_def idx filled_def nth_append)
qed

lemma filled_run:
  "ROWS * COLS - k = d \<Longrightarrow> k \<le> ROWS * COLS \<Longrightarrow>
   randomize_loop k (filled k) (draws_from k) = Inr (filled (ROWS * COLS), [])"
proof (induction d arbitrary: k)
  case 0
  then have "k = ROWS * COLS" by simp
  then show ?case
    by (subst randomize_loop.simps) (simp add: draws_from_def filled_def)
next
  case (Suc d)
  then have k: "k < ROWS * COLS" by simp
  have dr: "draws_from k = k div COLS # k mod COLS # draws_from (k + 1)"
    using k by (simp add: draws_from_def upt_conv_Cons)
  have ty: "type (cells (filled k) ! k) \<noteq> MINE"
    using k by (simp add: filled_def nth_append blank_fields)
  have "randomize_loop k (filled k) (draws_from k) =
      randomize_loop (k + 1) (filled (k + 1)) (draws_from (k + 1))"
    unfolding dr using randomize_loop_draw[of k "filled k" k] k ty
    by (simp add: filled_step) (simp add: filled_def)
  also have "\<dots> = Inr (filled (ROWS * COLS), [])"
    using Suc.prems k by (intro Suc.IH) simp_all
  finally show ?case .
qed

lemma init_grid_full:
  assumes "length (cells g) = ROWS * COLS"
  shows "init_grid g (ROWS * COLS) (draws_from 0) = Inr (filled (ROWS * COLS), [])"
proof -
  have "(clear_grid g)\<lparr>mines_count := ROWS * COLS\<rparr> = filled 0"
    using assms by (simp add: clear_grid_def clear_cells_all filled_def)
  then show ?thesis
    using filled_run[of 0] by (simp add: init_grid_def randomize_grid_def)
qed

lemma count_type_all:
  assumes "count_type t cs = length cs"
  shows "\<forall>c \<in> set cs. type c = t"
proof (rule ccontr)
  assume "\<not> ?thesis"
  then obtain c where "c \<in> set cs" "type c \<noteq> t" by blast
  then have "length (filter (\<lambda>c. type c = t) cs) < length cs"
    by (intro length_filter_less) auto
  with assms show False by (simp add: count_type_def)
qed

lemma randomize_loop_too_many:
  assumes "length (cells g) = ROWS * COLS" and "placed \<le> mines_count g"
    and "ROWS * COLS < count_type MINE (cells g) + (mines_count g - placed)"
  shows "randomize_loop placed g rs = Inl DrawsExhausted"
proof (cases "randomize_loop placed g rs")
  case (Inl e)
  with randomize_loop_no_assert[OF assms(1), of placed rs] show ?thesis
    by (cases e) auto
next
  case (Inr res)
  obtain g' rs' where "res = (g', rs')" by (cases res)
  with Inr have "placed_from placed g g'"
    using randomize_loop_placed assms(1,2) by blast
  moreover have "count_type MINE (cells g') \<le> length (cells g')"
    by (simp add: count_type_def)
  ultimately have "count_type MINE (cells g) + mines_count g \<le> ROWS * COLS + placed"
    using assms(1) by (simp add: placed_from_def)
  with assms(2,3) show ?thesis by simp
qed

subsection \<open>When the placement loop returns\<close>

lemma mine_cells_set_cell:
  assumes "r < ROWS" and "c < COLS" and "length (cells g) = ROWS * COLS"
  shows "mine_cells (set_cell g r c MINE) = insert (r * COLS + c) (mine_cells g)"
proof -
  have idx: "size_t (r * COLS + c) = r * COLS + c" "r * COLS + c < ROWS * COLS"
    using assms(1,2) by (simp_all add: size_t_def ROWS_def COLS_def)
  show ?thesis
    using assms(3) idx by (auto simp: mine_cells_def set_cell_nth)
qed

lemma randomize_loop_returns:
  "length (cells g) = ROWS * COLS \<Longrightarrow>
   mines_count g - placed \<le> card (set (picks rs) - mine_cells g) \<Longrightarrow>
   \<exists>g' rs'. randomize_loop placed g rs = Inr (g', rs')"
proof (induction rs arbitrary: placed g rule: picks.induct)
  case (1 a b rs)
  show ?case
  proof (cases "placed < mines_count g")
    case False
    then show ?thesis by (subst randomize_loop.simps) simp
  next
    case True
    let ?r = "a mod ROWS" and ?c = "b mod COLS"
    let ?i = "?r * COLS + ?c"
    have rc: "?r < ROWS" "?c < COLS" by (simp_all add: ROWS_def COLS_def)
    have idx: "size_t ?i = ?i" "?i < ROWS * COLS"
      using rc by (simp_all add: size_t_def ROWS_def COLS_def)
    have step: "randomize_loop placed g (a # b # rs) =
        (if type (cells g ! ?i) \<noteq> MINE
         then randomize_loop (placed + 1) (set_cell g ?r ?c MINE) rs
         else randomize_loop placed g rs)"
      using True idx by (subst randomize_loop.simps) (simp add: cell_at_def Let_def ROWS_def COLS_def)
    show ?thesis
    proof (cases "type (cells g ! ?i) \<noteq> MINE")
      case False
      then have "?i \<in> mine_cells g" using idx by (simp add: mine_cells_def)
      then have "set (picks (a # b # rs)) - mine_cells g = set (picks rs) - mine_cells g"
        by auto
      with "1.prems" have "\<exists>g' rs'. randomize_loop placed g rs = Inr (g', rs')"
        by (intro "1.IH") simp_all
      with step False show ?thesis by simp
    next
      case notmine: True
      let ?g = "set_cell g ?r ?c MINE"
      have mc: "mine_cells ?g = insert ?i (mine_cells g)"
        using rc "1.prems"(1) by (rule mine_cells_set_cell)
      have "set (picks (a # b # rs)) - mine_cells g \<subseteq> insert ?i (set (picks rs) - mine_cells ?g)"
        unfolding mc by auto
      then have "card (set (picks (a # b # rs)) - mine_cells g)
          \<le> card (insert ?i (set (picks rs) - mine_cells ?g))"
        by (intro card_mono) simp_all
      also have "\<dots> \<le> Suc (card (set (picks rs) - mine_cells ?g))"
        by (simp add: card_insert_if)
      finally have "mines_count ?g - (placed + 1) \<le> card (set (picks rs) - mine_cells ?g)"
        using "1.prems"(2) by (simp add: set_cell_fields)
      then have "\<exists>g' rs'. randomize_loop (placed + 1) ?g rs = Inr (g', rs')"
        using "1.prems"(1) by (intro "1.IH") (simp_all add: set_cell_fields)
      with step notmine show ?thesis by simp
    qed
  qed
qed (subst randomize_loop.simps, simp)+

lemma init_grid_returns:
  assumes "length (cells g) = ROWS * COLS" and "n \<le> card (set (picks rs))"
  shows "\<exists>g' rs'. init_grid g n rs = Inr (g', rs')"
proof -
  let ?g = "(clear_grid g)\<lparr>mines_count := n\<rparr>"
  have "mine_cells ?g = {}"
    using assms(1) by (simp add: mine_cells_def clear_grid_fields blank_fields)
  then show ?thesis
    unfolding init_grid_def randomize_grid_def using assms
    by (intro randomize_loop_returns) (simp_all add: clear_grid_fields)
qed

subsection \<open>Opening cells\<close>

declare reveal_cols.simps [simp del] reveal_rows.simps [simp del]

lemma open_cell_same:
  "length (cells (open_cell i g)) = length (cells g)"
  "cur_row (open_cell i g) = cur_row g" "cur_col (open_cell i g) = cur_col g"
  "mines_count (open_cell i g) = mines_count g"
  by (simp_all add: open_cell_def)

lemma open_cell_nth:
  assumes "j < length (cells g)"
  shows "type (cells (open_cell i g) ! j) = type (cells g ! j)"
    "flag (cells (open_cell i g) ! j) = flag (cells g ! j)"
    "opened (cells (open_cell i g) ! j) = (opened (cells g ! j) \<or> j = i)"
  using assms by (cases "i < length (cells g)"; auto simp: open_cell_def nth_list_update)+

lemma open_cell_count:
  assumes "i < length (cells g)" and "length (cells g) = ROWS * COLS"
    and "open_cells_count g = length (filter opened (cells g))"
  shows "open_cells_count (open_cell i g) = length (filter opened (cells (open_cell i g)))"
proof (cases "opened (cells g ! i)")
  case True
  with assms show ?thesis by (simp add: open_cell_def)
next
  case False
  have "length (filter opened (cells g)) \<le> ROWS * COLS"
    using assms(2) length_filter_le[of opened "cells g"] by simp
  then have "size_t (open_cells_count g + 1) = open_cells_count g + 1"
    using assms(3) by (simp add: size_t_def ROWS_def COLS_def)
  with False assms show ?thesis
    by (simp add: open_cell_def filter_upd_gain)
qed

lemma open_cell_opened: "opened (cells g ! i) \<Longrightarrow> open_cell i g = g"
  by (simp add: open_cell_def)

lemma opening_of_refl: "opening_of g g"
  by (simp add: opening_of_def)

lemma opening_of_trans: "opening_of g g1 \<Longrightarrow> opening_of g1 g2 \<Longrightarrow> opening_of g g2"
  by (simp add: opening_of_def)

lemma opening_of_open_cell:
  "i < length (cells g) \<Longrightarrow> length (cells g) = ROWS * COLS \<Longrightarrow> opening_of g (open_cell i g)"
  by (simp add: opening_of_def open_cell_same open_cell_nth open_cell_count)

lemma cell_index: "r < ROWS \<Longrightarrow> c < COLS \<Longrightarrow> r * COLS + c < ROWS * COLS"
  by (simp add: ROWS_def COLS_def)

lemma reveal_cols_opening:
  "length (cells g) = ROWS * COLS \<Longrightarrow> r < ROWS \<Longrightarrow> opening_of g (reveal_cols r c g)"
proof (induction r c g rule: reveal_cols.induct)
  case (1 r c grid)
  show ?case
  proof (cases "c < COLS")
    case True
    have "opening_of grid (open_cell (r * COLS + c) grid)"
      using "1.prems" True by (simp add: opening_of_open_cell cell_index)
    moreover have "opening_of (open_cell (r * COLS + c) grid)
        (reveal_cols r (c + 1) (open_cell (r * COLS + c) grid))"
      using "1.IH"[OF True] "1.prems" by (simp add: open_cell_same)
    ultimately show ?thesis
      using True opening_of_trans by (subst reveal_cols.simps) auto
  next
    case False
    then show ?thesis by (subst reveal_cols.simps) (simp add: opening_of_refl)
  qed
qed

lemma reveal_cols_opened:
  "length (cells g) = ROWS * COLS \<Longrightarrow> r < ROWS \<Longrightarrow> j < ROWS * COLS \<Longrightarrow>
   opened (cells (reveal_cols r c g) ! j) =
     (opened (cells g ! j) \<or> (r * COLS + c \<le> j \<and> j < r * COLS + COLS))"
proof (induction r c g arbitrary: j rule: reveal_cols.induct)
  case (1 r c grid)
  show ?case
  proof (cases "c < COLS")
    case True
    have "opened (cells (reveal_cols r (c + 1) (open_cell (r * COLS + c) grid)) ! j) =
        (opened (cells (open_cell (r * COLS + c) grid) ! j) \<or>
          (r * COLS + (c + 1) \<le> j \<and> j < r * COLS + COLS))"
      using "1.IH"[OF True] "1.prems" by (simp add: open_cell_same)
    then show ?thesis
      using True "1.prems" by (subst reveal_cols.simps) (auto simp: open_cell_nth)
  next
    case False
    then show ?thesis by (subst reveal_cols.simps) auto
  qed
qed

lemma reveal_rows_opening:
  "length (cells g) = ROWS * COLS \<Longrightarrow> opening_of g (reveal_rows r g)"
proof (induction r g rule: reveal_rows.induct)
  case (1 r grid)
  show ?case
  proof (cases "r < ROWS")
    case True
    have a: "opening_of grid (reveal_cols r 0 grid)"
      using "1.prems" True by (rule reveal_cols_opening)
    then have "length (cells (reveal_cols r 0 grid)) = ROWS * COLS"
      using "1.prems" by (simp add: opening_of_def)
    then have "opening_of (reveal_cols r 0 grid) (reveal_rows (r + 1) (reveal_cols r 0 grid))"
      using "1.IH"[OF True] by simp
    with a show ?thesis
      using True opening_of_trans by (subst reveal_rows.simps) auto
  next
    case False
    then show ?thesis by (subst reveal_rows.simps) (simp add: opening_of_refl)
  qed
qed

lemma reveal_rows_opened:
  "length (cells g) = ROWS * COLS \<Longrightarrow> j < ROWS * COLS \<Longrightarrow>
   opened (cells (reveal_rows r g) ! j) = (opened (cells g ! j) \<or> r * COLS \<le> j)"
proof (induction r g arbitrary: j rule: reveal_rows.induct)
  case (1 r grid)
  show ?case
  proof (cases "r < ROWS")
    case True
    have len: "length (cells (reveal_cols r 0 grid)) = ROWS * COLS"
      using reveal_cols_opening[OF "1.prems"(1) True, of 0] "1.prems"(1)
      by (simp add: opening_of_def)
    have "opened (cells (reveal_rows (r + 1) (reveal_cols r 0 grid)) ! j) =
        (opened (cells (reveal_cols r 0 grid) ! j) \<or> (r + 1) * COLS \<le> j)"
      using "1.IH"[OF True len "1.prems"(2)] .
    then show ?thesis
      using True "1.prems" reveal_cols_opened[OF "1.prems"(1) True "1.prems"(2), of 0]
      by (subst reveal_rows.simps) auto
  next
    case False
    then have "\<not> r * COLS \<le> j"
      using "1.prems"(2) by (auto simp: ROWS_def COLS_def)
    with False show ?thesis by (subst reveal_rows.simps) auto
  qed
qed



lemma cursor_idx_ok:
  assumes "grid_ok g"
  shows "size_t (cur_row g * COLS + cur_col g) = cursor_idx g" "cursor_idx g < COLS * ROWS"
    "cursor_idx g < length (cells g)"
  using assms by (auto simp: grid_ok_def cursor_idx_def size_t_def ROWS_def COLS_def)

lemma all_opened_count:
  assumes "\<forall>j < length cs. opened (cs ! j)"
  shows "length (filter opened cs) = length cs"
proof -
  have "filter opened cs = cs"
    using assms by (intro filter_True) (auto simp: in_set_conv_nth)
  then show ?thesis by simp
qed

lemma reveal_on_mine:
  assumes "grid_ok g" and "type (cells g ! cursor_idx g) = MINE"
  shows "reveal_at_cursor g = Inr (reveal_rows 0 (open_cell (cursor_idx g) g), Detonated)"
    and "opening_of g (reveal_rows 0 (open_cell (cursor_idx g) g))"
    and "\<forall>j < ROWS * COLS. opened (cells (reveal_rows 0 (open_cell (cursor_idx g) g)) ! j)"
    and "open_cells_count (reveal_rows 0 (open_cell (cursor_idx g) g)) = ROWS * COLS"
proof -
  let ?g1 = "open_cell (cursor_idx g) g"
  let ?g2 = "reveal_rows 0 ?g1"
  note ci = cursor_idx_ok[OF assms(1)]
  have len: "length (cells g) = ROWS * COLS" "length (cells ?g1) = ROWS * COLS"
    using assms(1) by (simp_all add: grid_ok_def open_cell_same)
  have "type (cells ?g1 ! cursor_idx g) = MINE"
    using assms(2) ci(3) by (simp add: open_cell_nth)
  then show "reveal_at_cursor g = Inr (?g2, Detonated)"
    using ci by (simp add: reveal_at_cursor_def Let_def)
  have o1: "opening_of g ?g1"
    using ci(3) len(1) by (rule opening_of_open_cell)
  have o2: "opening_of ?g1 ?g2"
    using len(2) by (rule reveal_rows_opening)
  from o1 o2 show o: "opening_of g ?g2" by (rule opening_of_trans)
  show all: "\<forall>j < ROWS * COLS. opened (cells ?g2 ! j)"
    using reveal_rows_opened[OF len(2), of _ 0] by simp
  have "length (cells ?g2) = ROWS * COLS"
    using o len(1) by (simp add: opening_of_def)
  moreover from this have "length (filter opened (cells ?g2)) = length (cells ?g2)"
    using all by (intro all_opened_count) simp
  moreover have "open_cells_count ?g2 = length (filter opened (cells ?g2))"
    using o assms(1) by (simp add: opening_of_def grid_ok_def)
  ultimately show "open_cells_count ?g2 = ROWS * COLS" by simp
qed

subsection \<open>The reveal case\<close>

lemma cells_eqI:
  assumes "length cs = length ds"
    and "\<And>j. j < length cs \<Longrightarrow> type (cs ! j) = type (ds ! j) \<and>
           opened (cs ! j) = opened (ds ! j) \<and> flag (cs ! j) = flag (ds ! j)"
  shows "cs = (ds :: Cell list)"
  using assms by (intro nth_equalityI) auto

lemma reveal_mine_result:
  assumes "grid_ok g" and "type (cells g ! cursor_idx g) = MINE"
  shows "reveal_at_cursor g =
     Inr (g\<lparr>cells := map (\<lambda>c. c\<lparr>opened := True\<rparr>) (cells g), open_cells_count := ROWS * COLS\<rparr>,
          Detonated)"
proof -
  let ?g' = "reveal_rows 0 (open_cell (cursor_idx g) g)"
  note r = reveal_on_mine[OF assms]
  have len: "length (cells g) = ROWS * COLS"
    using assms(1) by (simp add: grid_ok_def)
  have "cells ?g' = map (\<lambda>c. c\<lparr>opened := True\<rparr>) (cells g)"
    using r(2,3) len by (intro cells_eqI) (simp_all add: opening_of_def)
  then have "?g' = g\<lparr>cells := map (\<lambda>c. c\<lparr>opened := True\<rparr>) (cells g),
      open_cells_count := ROWS * COLS\<rparr>"
    using r(2,4) by (simp add: opening_of_def)
  with r(1) show ?thesis by simp
qed

lemma reveal_other_result:
  assumes "grid_ok g" and "type (cells g ! cursor_idx g) \<noteq> MINE"
  shows "reveal_at_cursor g =
     Inr (open_cell (cursor_idx g) g,
          if opened (cells g ! cursor_idx g) then AlreadyOpen else Opened)"
proof -
  note ci = cursor_idx_ok[OF assms(1)]
  have "type (cells (open_cell (cursor_idx g) g) ! cursor_idx g) \<noteq> MINE"
    using assms(2) ci(3) by (simp add: open_cell_nth)
  then show ?thesis
    using ci by (simp add: reveal_at_cursor_def Let_def)
qed

subsection \<open>Moves and the reachable grids\<close>

lemma move_cursor_cells:
  "cells (move_cursor d g) = cells g" "open_cells_count (move_cursor d g) = open_cells_count g"
  "mines_count (move_cursor d g) = mines_count g"
  by (cases d; simp)+

lemma move_cursor_inside:
  "cur_row g < ROWS \<Longrightarrow> cur_col g < COLS \<Longrightarrow>
   cur_row (move_cursor d g) < ROWS \<and> cur_col (move_cursor d g) < COLS"
  by (cases d) auto

lemma moves_inside:
  "cur_row g < ROWS \<Longrightarrow> cur_col g < COLS \<Longrightarrow>
   cur_row (fold move_cursor ds g) < ROWS \<and> cur_col (fold move_cursor ds g) < COLS"
  by (induction ds arbitrary: g) (simp_all add: move_cursor_inside)

lemma move_cursor_boundary: "at_boundary d g \<Longrightarrow> move_cursor d g = g"
  by (cases d) (simp_all add: at_boundary_def)

lemma key_step_move: "key_step n (dir_key d) g rs = Inr (move_cursor d g, rs, False)"
  by (cases d) (simp_all add: key_step_def dir_key_def)

lemma detonated_all_nth:
  assumes "length (cells g) = ROWS * COLS"
  shows "detonated_all g \<longleftrightarrow>
     ((\<exists>j < ROWS * COLS. type (cells g ! j) = MINE \<and> opened (cells g ! j)) \<longrightarrow>
        (\<forall>j < ROWS * COLS. opened (cells g ! j)) \<and> open_cells_count g = ROWS * COLS)"
proof -
  have "(\<exists>c \<in> set (cells g). type c = MINE \<and> opened c) \<longleftrightarrow>
      (\<exists>j < ROWS * COLS. type (cells g ! j) = MINE \<and> opened (cells g ! j))"
    using assms by (metis in_set_conv_nth)
  moreover have "(\<forall>c \<in> set (cells g). opened c) \<longleftrightarrow> (\<forall>j < ROWS * COLS. opened (cells g ! j))"
    using assms by (metis in_set_conv_nth)
  ultimately show ?thesis by (simp add: detonated_all_def)
qed

lemma good_move: "good g \<Longrightarrow> good (move_cursor d g)"
  using move_cursor_inside[of g d]
  by (auto simp: good_def grid_ok_def detonated_all_def move_cursor_cells)

lemma good_init:
  assumes "init_grid g n rs = Inr (g', rs')" and "length (cells g) = ROWS * COLS"
  shows "good g'"
proof -
  note res = init_grid_result[OF assms]
  have no: "\<forall>c \<in> set (cells g'). \<not> opened c"
    using res(1,7) by (auto simp: in_set_conv_nth)
  then have "filter opened (cells g') = []"
    by (simp add: filter_empty_conv)
  with res no show ?thesis
    by (auto simp: good_def grid_ok_def detonated_all_def ROWS_def COLS_def)
qed

lemma good_flag:
  assumes "good g" and "toggle_flag_at_cursor g = Inr g'"
  shows "good g'"
proof -
  have ok: "grid_ok g" using assms(1) by (simp add: good_def)
  note ci = cursor_idx_ok[OF ok]
  have len: "length (cells g) = ROWS * COLS" using ok by (simp add: grid_ok_def)
  let ?c = "(cells g ! cursor_idx g)\<lparr>flag := \<not> flag (cells g ! cursor_idx g)\<rparr>"
  have g': "g' = g\<lparr>cells := (cells g)[cursor_idx g := ?c]\<rparr>"
    using assms(2) ci by (simp add: toggle_flag_at_cursor_def Let_def)
  have cnt: "length (filter opened ((cells g)[cursor_idx g := ?c])) = length (filter opened (cells g))"
    by (rule filter_upd_same) simp
  have nth: "\<And>j. j < ROWS * COLS \<Longrightarrow>
      type (cells g' ! j) = type (cells g ! j) \<and> opened (cells g' ! j) = opened (cells g ! j)"
    using len ci(3) by (simp add: g' nth_list_update)
  have len': "length (cells g') = ROWS * COLS" using len by (simp add: g')
  have cnt': "open_cells_count g' = open_cells_count g"
    "length (filter opened (cells g')) = length (filter opened (cells g))"
    using cnt by (simp_all add: g')
  have d: "(\<exists>j < ROWS * COLS. type (cells g ! j) = MINE \<and> opened (cells g ! j)) \<longrightarrow>
        (\<forall>j < ROWS * COLS. opened (cells g ! j)) \<and> open_cells_count g = ROWS * COLS"
    using assms(1) by (simp add: good_def detonated_all_nth[OF len])
  have "grid_ok g'"
    using ok cnt by (simp add: g' grid_ok_def)
  moreover have "detonated_all g'"
    unfolding detonated_all_nth[OF len'] using d cnt'(1) nth by metis
  ultimately show ?thesis by (simp add: good_def)
qed

lemma good_reveal:
  assumes "good g" and "reveal_at_cursor g = Inr (g', out)"
  shows "good g'"
proof -
  have ok: "grid_ok g" using assms(1) by (simp add: good_def)
  note ci = cursor_idx_ok[OF ok]
  have len: "length (cells g) = ROWS * COLS" using ok by (simp add: grid_ok_def)
  show ?thesis
  proof (cases "type (cells g ! cursor_idx g) = MINE")
    case True
    note r = reveal_on_mine[OF ok True]
    from r(1) assms(2) have g': "g' = reveal_rows 0 (open_cell (cursor_idx g) g)" by simp
    have len': "length (cells g') = ROWS * COLS"
      using r(2) len by (simp add: g' opening_of_def)
    have "grid_ok g'"
      using r(2) ok by (simp add: g' opening_of_def grid_ok_def)
    moreover have "\<forall>j < ROWS * COLS. opened (cells g' ! j)" "open_cells_count g' = ROWS * COLS"
      using r(3,4) by (simp_all add: g')
    then have "detonated_all g'"
      by (simp add: detonated_all_nth[OF len'])
    ultimately show ?thesis by (simp add: good_def)
  next
    case False
    from reveal_other_result[OF ok False] assms(2)
    have g': "g' = open_cell (cursor_idx g) g" by simp
    have len': "length (cells g') = ROWS * COLS"
      using len by (simp add: g' open_cell_same)
    have ok': "grid_ok g'"
      using ok ci(3) len open_cell_count[of "cursor_idx g" g]
      by (simp add: g' grid_ok_def open_cell_same)
    have "detonated_all g'"
    proof (cases "\<exists>j < ROWS * COLS. type (cells g ! j) = MINE \<and> opened (cells g ! j)")
      case True
      then have "opened (cells g ! cursor_idx g)"
        using assms(1) ci(3) len by (simp add: good_def detonated_all_nth[OF len])
      then have "g' = g" by (simp add: g' open_cell_opened)
      with assms(1) show ?thesis by (simp add: good_def)
    next
      case none: False
      have "\<not> (\<exists>j < ROWS * COLS. type (cells g' ! j) = MINE \<and> opened (cells g' ! j))"
        using none False len by (auto simp: g' open_cell_nth)
      then show ?thesis unfolding detonated_all_nth[OF len'] by blast
    qed
    with ok' show ?thesis by (simp add: good_def)
  qed
qed

lemma good_key_step:
  assumes "good g" and "key_step n ch g rs = Inr (g', rs', q)"
  shows "good g'"
proof -
  have len: "length (cells g) = ROWS * COLS"
    using assms(1) by (simp add: good_def grid_ok_def)
  consider "ch = CHR ''d''" | "ch = CHR ''a''" | "ch = CHR ''s''" | "ch = CHR ''w''"
    | "ch = CHR '' ''" | "ch = CHR ''f''" | "ch = CHR ''q''" | "ch = CHR ''r''"
    | "ch \<notin> {CHR ''d'', CHR ''a'', CHR ''s'', CHR ''w'', CHR '' '', CHR ''f'', CHR ''q'', CHR ''r''}"
    by blast
  then show ?thesis
  proof cases
    case 1
    then have "g' = move_cursor Right g"
      using assms(2) key_step_move[of n Right g rs] by (simp add: dir_key_def del: move_cursor.simps)
    then show ?thesis
      using good_move[OF assms(1), of Right] by (simp del: move_cursor.simps)
  next
    case 2
    then have "g' = move_cursor Left g"
      using assms(2) key_step_move[of n Left g rs] by (simp add: dir_key_def del: move_cursor.simps)
    then show ?thesis
      using good_move[OF assms(1), of Left] by (simp del: move_cursor.simps)
  next
    case 3
    then have "g' = move_cursor Down g"
      using assms(2) key_step_move[of n Down g rs] by (simp add: dir_key_def del: move_cursor.simps)
    then show ?thesis
      using good_move[OF assms(1), of Down] by (simp del: move_cursor.simps)
  next
    case 4
    then have "g' = move_cursor Up g"
      using assms(2) key_step_move[of n Up g rs] by (simp add: dir_key_def del: move_cursor.simps)
    then show ?thesis
      using good_move[OF assms(1), of Up] by (simp del: move_cursor.simps)
  next
    case 5
    with assms(2) obtain out where "reveal_at_cursor g = Inr (g', out)"
      by (auto simp: key_step_def split: sum.splits)
    with assms(1) show ?thesis by (rule good_reveal)
  next
    case 6
    with assms(2) have "toggle_flag_at_cursor g = Inr g'"
      by (auto simp: key_step_def split: sum.splits)
    with assms(1) show ?thesis by (rule good_flag)
  next
    case 7 with assms show ?thesis by (auto simp: key_step_def)
  next
    case 8
    with assms(2) have "init_grid g n rs = Inr (g', rs')"
      by (auto simp: key_step_def split: sum.splits)
    then show ?thesis using len by (rule good_init)
  next
    case 9 with assms show ?thesis by (auto simp: key_step_def)
  qed
qed

lemma reachable_good: "reachable n g \<Longrightarrow> good g"
proof (induction rule: reachable.induct)
  case (reachable_init g0 rs g rs')
  then show ?case using good_init by blast
next
  case (reachable_key g ch rs g' rs' q)
  then show ?case using good_key_step by blast
qed

subsection \<open>The concrete grids\<close>

lemmas dims = ROWS_def COLS_def

lemma grid_ok_examples:
  "grid_ok blank_grid" "grid_ok played" "grid_ok one_mine" "grid_ok opened_one" "grid_ok exploded"
  by (simp_all add: grid_ok_def blank_grid_def played_def one_mine_def opened_one_def exploded_def
      filter_upd_same filter_upd_gain blank_def dims)

lemma cursor_examples:
  "cursor_idx blank_grid = 0" "cursor_idx played = 34" "cursor_idx one_mine = 0"
  "cursor_idx opened_one = 1" "cursor_idx exploded = 0"
  by (simp_all add: cursor_idx_def blank_grid_def played_def one_mine_def opened_one_def exploded_def dims)

lemma reveal_one_mine: "reveal_at_cursor one_mine = Inr (exploded, Detonated)"
proof -
  have "type (cells one_mine ! cursor_idx one_mine) = MINE"
    by (simp add: cursor_examples) (simp add: one_mine_def dims)
  from reveal_mine_result[OF grid_ok_examples(3) this] show ?thesis
    by (simp add: one_mine_def exploded_def map_update)
qed

lemma init_one_mine: "init_grid played 1 [0, 0] = Inr (one_mine, [])"
  by (simp add: init_grid_def randomize_grid_def randomize_loop.simps cell_at_def
      clear_grid_def clear_cells_all played_def one_mine_def set_cell_def size_t_def dims blank_def Let_def)

lemma init_placed_two: "init_grid played 2 [0, 0, 10, 20, 3, 4] = Inr (placed_two, [])"
  by (simp add: init_grid_def randomize_grid_def randomize_loop.simps cell_at_def
      clear_grid_def clear_cells_all played_def placed_two_def set_cell_def size_t_def dims blank_def Let_def)

lemma reachable_examples:
  "reachable 1 one_mine" "reachable 1 exploded" "reachable 2 placed_two"
proof -
  have len: "length (cells played) = ROWS * COLS" by (simp add: played_def)
  from len init_one_mine show a: "reachable 1 one_mine" by (rule reachable_init)
  have "key_step 1 (CHR '' '') one_mine [] = Inr (exploded, [], False)"
    by (simp add: key_step_def reveal_one_mine)
  with a show "reachable 1 exploded" by (rule reachable_key)
  from len init_placed_two show "reachable 2 placed_two" by (rule reachable_init)
qed



subsection \<open>Counting neighbours\<close>

lemma nbor_step_Inr:
  "nbor_step g row col dy (Inr n) dx =
     (if considered row col (dy, dx) \<and> mine_at g (nbor_pos row col (dy, dx))
      then Inr (n + 1) else Inr n)"
proof (cases "considered row col (dy, dx)")
  case False
  then show ?thesis
    by (auto simp: nbor_step_def considered_def Let_def)
next
  case True
  then have "nat (to_int row + dy) < 10" "nat (to_int col + dx) < 10"
    by (auto simp: considered_def ROWS_def COLS_def)
  then have "cell_at g (nat (to_int row + dy)) (nat (to_int col + dx)) =
      Inr (cells g ! (nat (to_int row + dy) * COLS + nat (to_int col + dx)))"
    by (simp add: cell_at_def size_t_def ROWS_def COLS_def Let_def)
  with True show ?thesis
    by (auto simp: nbor_step_def considered_def Let_def mine_at_def nbor_pos_def)
qed

lemma foldl_nbor_step:
  "foldl (nbor_step g row col dy) (Inr n) dxs =
     Inr (n + length (filter (\<lambda>dx. considered row col (dy, dx) \<and>
            mine_at g (nbor_pos row col (dy, dx))) dxs))"
  by (induction dxs arbitrary: n) (simp_all add: nbor_step_Inr)

lemma foldl_nbor_rows:
  "foldl (\<lambda>acc dy. foldl (nbor_step g row col dy) acc dxs) (Inr n) dys =
     Inr (n + length (filter (\<lambda>p. considered row col p \<and> mine_at g (nbor_pos row col p))
            (List.product dys dxs)))"
proof (induction dys arbitrary: n)
  case Nil
  then show ?case by simp
next
  case (Cons dy dys)
  show ?case
    by (simp only: foldl_Cons foldl_nbor_step Cons.IH List.product.simps filter_append
        filter_map length_append length_map comp_def add.assoc)
qed

lemma count_nbors_offsets:
  "count_nbors g row col =
     Inr (length (filter (\<lambda>p. considered row col p \<and> mine_at g (nbor_pos row col p)) offsets))"
  unfolding count_nbors_def offsets_def by (simp only: foldl_nbor_rows add_0)

lemma offsets_distinct: "distinct offsets"
  by (simp add: offsets_def distinct_product)


lemma to_int_small: "n < 2 ^ 31 \<Longrightarrow> to_int n = int n"
  by (simp add: to_int_def Let_def)

lemma considered_inside:
  assumes "row < ROWS" and "col < COLS"
  shows "considered row col (dy, dx) \<longleftrightarrow>
     \<not> (dx = 0 \<and> dy = 0) \<and> 0 \<le> int row + dy \<and> int row + dy < int ROWS \<and>
     0 \<le> int col + dx \<and> int col + dx < int COLS"
    and "nbor_pos row col (dy, dx) = (nat (int row + dy), nat (int col + dx))"
  using assms by (simp_all add: considered_def nbor_pos_def to_int_small ROWS_def COLS_def)

lemma set_offsets: "set offsets = {-1, 0, 1} \<times> {-1, 0, 1}"
  by (simp add: offsets_def)

lemma nbor_positions_set:
  assumes "row < ROWS" and "col < COLS"
  shows "set (map (nbor_pos row col) (filter (considered row col) offsets)) =
     set (moore_nbors row col)"
proof (rule set_eqI)
  fix p :: "nat \<times> nat"
  obtain r c where p: "p = (r, c)" by (cases p)
  show "p \<in> set (map (nbor_pos row col) (filter (considered row col) offsets)) \<longleftrightarrow>
      p \<in> set (moore_nbors row col)"
  proof
    assume "p \<in> set (map (nbor_pos row col) (filter (considered row col) offsets))"
    then obtain dy dx where o: "(dy, dx) \<in> set offsets" "considered row col (dy, dx)"
      "p = nbor_pos row col (dy, dx)"
      by auto
    from o(1) have "dy \<in> {-1, 0, 1}" "dx \<in> {-1, 0, 1}"
      by (auto simp: set_offsets)
    with o(2,3) show "p \<in> set (moore_nbors row col)"
      unfolding p considered_inside[OF assms] moore_nbors_def
      by (auto simp: ROWS_def COLS_def)
  next
    assume "p \<in> set (moore_nbors row col)"
    then have m: "r < ROWS" "c < COLS" "(r, c) \<noteq> (row, col)" "r \<le> row + 1" "row \<le> r + 1"
      "c \<le> col + 1" "col \<le> c + 1"
      by (auto simp: p moore_nbors_def)
    let ?o = "(int r - int row, int c - int col)"
    have "int r - int row = -1 \<or> int r - int row = 0 \<or> int r - int row = 1"
      using m(4,5) by arith
    moreover have "int c - int col = -1 \<or> int c - int col = 0 \<or> int c - int col = 1"
      using m(6,7) by arith
    ultimately have o: "?o \<in> set offsets"
      unfolding set_offsets by blast
    have "\<not> (int c - int col = 0 \<and> int r - int row = 0)"
      using m(3) by auto
    moreover have "0 \<le> int row + (int r - int row)" "int row + (int r - int row) < int ROWS"
      "0 \<le> int col + (int c - int col)" "int col + (int c - int col) < int COLS"
      using m(1,2) by simp_all
    ultimately have "considered row col ?o"
      unfolding considered_inside[OF assms] by blast
    with o have "?o \<in> set (filter (considered row col) offsets)" by simp
    then have "nbor_pos row col ?o \<in> nbor_pos row col ` set (filter (considered row col) offsets)"
      by (rule imageI)
    moreover have "nbor_pos row col ?o = p"
      by (simp add: considered_inside[OF assms] p)
    ultimately show "p \<in> set (map (nbor_pos row col) (filter (considered row col) offsets))"
      by (simp only: set_map)
  qed
qed

lemma nbor_positions_distinct:
  assumes "row < ROWS" and "col < COLS"
  shows "distinct (map (nbor_pos row col) (filter (considered row col) offsets))"
proof -
  have "inj_on (nbor_pos row col) (set (filter (considered row col) offsets))"
    by (rule inj_onI) (auto simp: considered_inside[OF assms])
  then show ?thesis
    by (simp add: distinct_map offsets_distinct)
qed

lemma moore_nbors_distinct: "distinct (moore_nbors row col)"
  by (simp add: moore_nbors_def distinct_product)

lemma length_filter_same_set:
  assumes "distinct xs" and "distinct ys" and "set xs = set ys"
  shows "length (filter P xs) = length (filter P ys)"
proof -
  have "length (filter P xs) = card (set (filter P xs))"
    using assms(1) distinct_card[of "filter P xs"] by simp
  also have "set (filter P xs) = set (filter P ys)"
    using assms(3) by simp
  also have "card (set (filter P ys)) = length (filter P ys)"
    using assms(2) distinct_card[of "filter P ys"] by simp
  finally show ?thesis .
qed

lemma count_nbors_moore:
  assumes "row < ROWS" and "col < COLS"
  shows "count_nbors g row col = Inr (length (filter (mine_at g) (moore_nbors row col)))"
proof -
  let ?ps = "map (nbor_pos row col) (filter (considered row col) offsets)"
  have "length (filter (\<lambda>p. considered row col p \<and> mine_at g (nbor_pos row col p)) offsets) =
      length (filter (mine_at g) ?ps)"
    by (simp add: filter_map comp_def)
  also have "\<dots> = length (filter (mine_at g) (moore_nbors row col))"
    using nbor_positions_distinct[OF assms] moore_nbors_distinct nbor_positions_set[OF assms]
    by (rule length_filter_same_set)
  finally show ?thesis by (simp add: count_nbors_offsets)
qed

lemma offsets_list:
  "offsets = [(-1, -1), (-1, 0), (-1, 1), (0, -1), (0, 0), (0, 1), (1, -1), (1, 0), (1, 1)]"
  by (simp add: offsets_def)

lemma considered_count:
  assumes "row < ROWS" and "col < COLS"
  shows "length (filter (considered row col) offsets) =
     (if (row = 0 \<or> row = ROWS - 1) \<and> (col = 0 \<or> col = COLS - 1) then 3
      else if row = 0 \<or> row = ROWS - 1 \<or> col = 0 \<or> col = COLS - 1 then 5 else 8)"
proof -
  have ti: "to_int row = int row" "to_int col = int col"
    using assms by (simp_all add: to_int_small ROWS_def COLS_def)
  have eq: "length (filter (considered row col) offsets) =
      length (filter (\<lambda>(dy, dx). \<not> (dx = 0 \<and> dy = 0) \<and> 0 \<le> int row + dy \<and>
          int row + dy < 10 \<and> 0 \<le> int col + dx \<and> int col + dx < 10)
        [(-1, -1), (-1, 0), (-1, 1), (0, -1), (0, 0), (0, 1), (1, -1), (1, 0), (1, 1)])"
    unfolding offsets_list considered_def ti ROWS_def COLS_def by simp
  have r: "row = 0 \<or> row = 9 \<or> (0 < row \<and> row < 9)"
    using assms(1) unfolding ROWS_def by arith
  have c: "col = 0 \<or> col = 9 \<or> (0 < col \<and> col < 9)"
    using assms(2) unfolding COLS_def by arith
  from r c consider
      "row = 0" "col = 0" | "row = 0" "col = 9" | "row = 0" "0 < col" "col < 9"
    | "row = 9" "col = 0" | "row = 9" "col = 9" | "row = 9" "0 < col" "col < 9"
    | "0 < row" "row < 9" "col = 0" | "0 < row" "row < 9" "col = 9"
    | "0 < row" "row < 9" "0 < col" "col < 9"
    by blast
  then show ?thesis
  proof cases
    case 1 then show ?thesis unfolding eq by (simp add: ROWS_def COLS_def)
  next
    case 2 then show ?thesis unfolding eq by (simp add: ROWS_def COLS_def)
  next
    case 3 then show ?thesis unfolding eq by (simp add: ROWS_def COLS_def)
  next
    case 4 then show ?thesis unfolding eq by (simp add: ROWS_def COLS_def)
  next
    case 5 then show ?thesis unfolding eq by (simp add: ROWS_def COLS_def)
  next
    case 6 then show ?thesis unfolding eq by (simp add: ROWS_def COLS_def)
  next
    case 7 then show ?thesis unfolding eq by (simp add: ROWS_def COLS_def)
  next
    case 8 then show ?thesis unfolding eq by (simp add: ROWS_def COLS_def)
  next
    case 9 then show ?thesis unfolding eq by (simp add: ROWS_def COLS_def)
  qed
qed

lemma moore_nbors_length:
  assumes "row < ROWS" and "col < COLS"
  shows "length (moore_nbors row col) = length (filter (considered row col) offsets)"
proof -
  have "length (moore_nbors row col) = length (filter (\<lambda>p. True) (moore_nbors row col))"
    by simp
  also have "\<dots> = length (filter (\<lambda>p. True)
      (map (nbor_pos row col) (filter (considered row col) offsets)))"
    using moore_nbors_distinct nbor_positions_distinct[OF assms]
      nbor_positions_set[OF assms, symmetric]
    by (rule length_filter_same_set)
  also have "\<dots> = length (filter (considered row col) offsets)" by simp
  finally show ?thesis .
qed

lemma count_nbors_placed_two: "count_nbors placed_two 0 1 = Inr 1"
  by (simp add: count_nbors_offsets offsets_list considered_def nbor_pos_def mine_at_def
      to_int_def placed_two_def ROWS_def COLS_def blank_def)

section \<open>The claims\<close>

text \<open>
  C1. For every \<open>n < ROWS * COLS\<close>, \<open>init_grid\<close> with \<open>n\<close> mines returns as soon as the
  draws have picked \<open>n\<close> different cells (and some draws do); and whenever it returns,
  the grid has exactly \<open>n\<close> cells of kind \<open>MINE\<close>, at \<open>n\<close> distinct positions, and the
  other \<open>ROWS * COLS - n\<close> cells have kind \<open>EMPTY\<close>.
\<close>

theorem init_grid_places_mines:
  assumes "n < ROWS * COLS" and "length (cells g) = ROWS * COLS"
  shows "(\<exists>rs g' rs'. init_grid g n rs = Inr (g', rs')) \<and>
    (\<forall>rs. n \<le> card (set (picks rs)) \<longrightarrow> (\<exists>g' rs'. init_grid g n rs = Inr (g', rs'))) \<and>
    (\<forall>rs g' rs'. init_grid g n rs = Inr (g', rs') \<longrightarrow>
       length (cells g') = ROWS * COLS \<and>
       count_type MINE (cells g') = n \<and>
       count_type EMPTY (cells g') = ROWS * COLS - n \<and>
       card {i. i < ROWS * COLS \<and> type (cells g' ! i) = MINE} = n)"
proof (intro conjI allI impI)
  show "\<exists>rs g' rs'. init_grid g n rs = Inr (g', rs')"
    unfolding init_grid_def randomize_grid_def
    using assms
    by (intro randomize_loop_can_return[where k = n])
      (simp_all add: clear_grid_fields count_type_blank)
next
  fix rs
  assume "n \<le> card (set (picks rs))"
  with assms(2) show "\<exists>g' rs'. init_grid g n rs = Inr (g', rs')"
    by (rule init_grid_returns)
next
  fix rs g' rs'
  assume run: "init_grid g n rs = Inr (g', rs')"
  note res = init_grid_result[OF run assms(2)]
  show "length (cells g') = ROWS * COLS" by (rule res)
  show "count_type MINE (cells g') = n" by (rule res)
  show "count_type EMPTY (cells g') = ROWS * COLS - n"
    using count_empty[of "cells g'"] res(1,2,7) by simp
  show "card {i. i < ROWS * COLS \<and> type (cells g' ! i) = MINE} = n"
    using res(1,2) length_filter_conv_card[of "\<lambda>c. type c = MINE" "cells g'"]
    by (simp add: count_type_def)
qed

theorem init_grid_places_mines_witness:
  "(2::nat) < ROWS * COLS \<and> length (cells blank_grid) = ROWS * COLS \<and>
   2 \<le> card (set (picks [0, 0, 10, 20, 3, 4])) \<and>
   (\<exists>g'. init_grid blank_grid 2 [0, 0, 10, 20, 3, 4] = Inr (g', []) \<and>
      count_type MINE (cells g') = 2 \<and> count_type EMPTY (cells g') = ROWS * COLS - 2)"
proof -
  have n: "(2::nat) < ROWS * COLS" by (simp add: ROWS_def COLS_def)
  have len: "length (cells blank_grid) = ROWS * COLS" by (simp add: blank_grid_def)
  have p: "2 \<le> card (set (picks [0, 0, 10, 20, 3, 4]))"
    by (simp add: ROWS_def COLS_def)
  from init_grid_places_mines[OF n len] init_grid_two n len p show ?thesis by blast
qed

text \<open>
  C2. In every grid state whose cell under the cursor is a mine, the case \<^verbatim>\<open>' '\<close>
  returns with every cell of the grid opened and \<open>open_cells_count = ROWS * COLS\<close>;
  the reveal-all block ran (outcome \<open>Detonated\<close>).
\<close>

theorem reveal_mine_detonates:
  assumes "grid_ok g" and "type (cells g ! cursor_idx g) = MINE"
  shows "\<exists>g'. reveal_at_cursor g = Inr (g', Detonated) \<and>
     length (cells g') = ROWS * COLS \<and>
     (\<forall>c \<in> set (cells g'). opened c) \<and>
     open_cells_count g' = ROWS * COLS"
proof -
  let ?g' = "reveal_rows 0 (open_cell (cursor_idx g) g)"
  note r = reveal_on_mine[OF assms]
  have len: "length (cells ?g') = ROWS * COLS"
    using r(2) assms(1) by (simp add: opening_of_def grid_ok_def)
  then have "\<forall>c \<in> set (cells ?g'). opened c"
    using r(3) by (auto simp: in_set_conv_nth)
  with r(1,4) len show ?thesis by blast
qed

theorem reveal_mine_detonates_witness:
  "grid_ok one_mine \<and> type (cells one_mine ! cursor_idx one_mine) = MINE \<and>
   (\<exists>g'. reveal_at_cursor one_mine = Inr (g', Detonated) \<and>
      length (cells g') = ROWS * COLS \<and> (\<forall>c \<in> set (cells g'). opened c) \<and>
      open_cells_count g' = ROWS * COLS) \<and>
   reveal_at_cursor one_mine = Inr (exploded, Detonated)"
proof -
  have m: "type (cells one_mine ! cursor_idx one_mine) = MINE"
    by (simp add: cursor_examples) (simp add: one_mine_def dims)
  from reveal_mine_detonates[OF grid_ok_examples(3) m] grid_ok_examples(3) m reveal_one_mine
  show ?thesis by blast
qed

text \<open>
  C3, as the claim states it, fails: \<open>init_grid\<close> does not check the number of mines.
  Called with \<open>ROWS * COLS\<close> mines on a grid in play, it returns, and the grid it
  returns is not the one it was given.
\<close>

theorem init_grid_unchecked_counterexample:
  "\<not> ROWS * COLS < ROWS * COLS \<and>
   init_grid played (ROWS * COLS) (draws_from 0) = Inr (filled (ROWS * COLS), []) \<and>
   filled (ROWS * COLS) \<noteq> played"
proof -
  have "length (cells played) = ROWS * COLS" by (simp add: played_def)
  moreover have "cur_row (filled (ROWS * COLS)) \<noteq> cur_row played"
    by (simp add: filled_def played_def)
  ultimately show ?thesis
    using init_grid_full[of played] by auto
qed

text \<open>
  C3, amended. \<open>init_grid\<close> with \<open>n \<ge> ROWS * COLS\<close> reports no error. With
  \<open>n > ROWS * COLS\<close> the placement loop never ends: whatever the draws, the run uses
  them up. With \<open>n = ROWS * COLS\<close> the call can return, and whenever it returns the
  grid is cleared (nothing opened or flagged, cursor at (0, 0), no cell counted as
  open) and every cell is a mine, whatever the grid held before.
\<close>

theorem init_grid_unchecked:
  assumes "length (cells g) = ROWS * COLS" and "ROWS * COLS \<le> n"
  shows "(ROWS * COLS < n \<longrightarrow> (\<forall>rs. init_grid g n rs = Inl DrawsExhausted)) \<and>
    (n = ROWS * COLS \<longrightarrow>
       (\<exists>rs g' rs'. init_grid g n rs = Inr (g', rs')) \<and>
       (\<forall>rs g' rs'. init_grid g n rs = Inr (g', rs') \<longrightarrow>
          cells g' = replicate (ROWS * COLS) \<lparr>type = MINE, opened = False, flag = False\<rparr> \<and>
          cur_row g' = 0 \<and> cur_col g' = 0 \<and> open_cells_count g' = 0 \<and> mines_count g' = n))"
proof (intro conjI impI allI)
  fix rs
  assume "ROWS * COLS < n"
  then show "init_grid g n rs = Inl DrawsExhausted"
    unfolding init_grid_def randomize_grid_def using assms(1)
    by (intro randomize_loop_too_many) (simp_all add: clear_grid_fields count_type_blank)
next
  assume "n = ROWS * COLS"
  then show "\<exists>rs g' rs'. init_grid g n rs = Inr (g', rs')"
    using init_grid_full[OF assms(1)] by blast
next
  fix rs g' rs'
  assume n: "n = ROWS * COLS" and run: "init_grid g n rs = Inr (g', rs')"
  note res = init_grid_result[OF run assms(1)]
  show "cur_row g' = 0" "cur_col g' = 0" "open_cells_count g' = 0" "mines_count g' = n"
    by (rule res)+
  have "\<forall>c \<in> set (cells g'). type c = MINE"
    using res(1,2) n by (intro count_type_all) simp
  then have "\<forall>i < ROWS * COLS. type (cells g' ! i) = MINE"
    using res(1) by simp
  then show "cells g' = replicate (ROWS * COLS) \<lparr>type = MINE, opened = False, flag = False\<rparr>"
    using res(1,7) by (intro nth_equalityI) auto
qed

theorem init_grid_unchecked_witness:
  "length (cells played) = ROWS * COLS \<and> ROWS * COLS \<le> (101::nat) \<and>
   init_grid played 101 [0, 0, 5, 5] = Inl DrawsExhausted"
proof -
  have len: "length (cells played) = ROWS * COLS" by (simp add: played_def)
  have n: "ROWS * COLS \<le> (101::nat)" by (simp add: ROWS_def COLS_def)
  have "ROWS * COLS < (101::nat)" by (simp add: ROWS_def COLS_def)
  with init_grid_unchecked[OF len n] len n show ?thesis by blast
qed



text \<open>
  C5. In every grid state whose cell under the cursor is not opened and of kind
  \<open>EMPTY\<close>, the case \<^verbatim>\<open>' '\<close> returns with outcome \<open>Opened\<close>: \<open>open_cells_count\<close> is one
  more, the cell under the cursor is opened, every other cell is opened exactly if
  it was, and no cell's flag or kind and no cursor coordinate has changed.
\<close>

theorem reveal_empty_opens_one:
  assumes "grid_ok g" and "\<not> opened (cells g ! cursor_idx g)"
    and "type (cells g ! cursor_idx g) = EMPTY"
  shows "\<exists>g'. reveal_at_cursor g = Inr (g', Opened) \<and>
     open_cells_count g' = open_cells_count g + 1 \<and>
     length (cells g') = ROWS * COLS \<and>
     opened (cells g' ! cursor_idx g) \<and>
     (\<forall>j < ROWS * COLS. j \<noteq> cursor_idx g \<longrightarrow> opened (cells g' ! j) = opened (cells g ! j)) \<and>
     (\<forall>j < ROWS * COLS. flag (cells g' ! j) = flag (cells g ! j) \<and>
        type (cells g' ! j) = type (cells g ! j)) \<and>
     cur_row g' = cur_row g \<and> cur_col g' = cur_col g"
proof -
  let ?g' = "open_cell (cursor_idx g) g"
  note ci = cursor_idx_ok[OF assms(1)]
  have len: "length (cells g) = ROWS * COLS"
    using assms(1) by (simp add: grid_ok_def)
  have "type (cells ?g' ! cursor_idx g) \<noteq> MINE"
    using assms(3) ci(3) by (simp add: open_cell_nth)
  then have run: "reveal_at_cursor g = Inr (?g', Opened)"
    using ci assms(2) by (simp add: reveal_at_cursor_def Let_def)
  have cnt: "open_cells_count ?g' = length (filter opened (cells ?g'))"
    using ci(3) len assms(1) by (intro open_cell_count) (simp_all add: grid_ok_def)
  have "length (filter opened (cells ?g')) = Suc (length (filter opened (cells g)))"
    using assms(2) ci(3) by (simp add: open_cell_def filter_upd_gain)
  with cnt have "open_cells_count ?g' = open_cells_count g + 1"
    using assms(1) by (simp add: grid_ok_def)
  with run len ci(3) show ?thesis
    by (intro exI[of _ ?g']) (simp add: open_cell_same open_cell_nth)
qed

theorem reveal_empty_opens_one_witness:
  "grid_ok blank_grid \<and> \<not> opened (cells blank_grid ! cursor_idx blank_grid) \<and>
   type (cells blank_grid ! cursor_idx blank_grid) = EMPTY \<and>
   (\<exists>g'. reveal_at_cursor blank_grid = Inr (g', Opened) \<and> open_cells_count g' = 1 \<and>
      opened (cells g' ! 0) \<and> \<not> opened (cells g' ! 1))"
proof -
  have b: "\<not> opened (cells blank_grid ! cursor_idx blank_grid)"
    "type (cells blank_grid ! cursor_idx blank_grid) = EMPTY"
    by (simp_all add: cursor_examples) (simp_all add: blank_grid_def dims blank_def)
  have c: "open_cells_count blank_grid = 0" "\<not> opened (cells blank_grid ! 1)"
    by (simp_all add: blank_grid_def dims blank_def)
  have one: "(1::nat) < ROWS * COLS" "1 \<noteq> cursor_idx blank_grid"
    by (simp_all add: cursor_examples dims)
  from reveal_empty_opens_one[OF grid_ok_examples(1) b] obtain g' where
    g': "reveal_at_cursor blank_grid = Inr (g', Opened)"
      "open_cells_count g' = open_cells_count blank_grid + 1"
      "opened (cells g' ! cursor_idx blank_grid)"
      "\<forall>j < ROWS * COLS. j \<noteq> cursor_idx blank_grid \<longrightarrow>
         opened (cells g' ! j) = opened (cells blank_grid ! j)"
    by blast
  from g'(4) one c(2) have "\<not> opened (cells g' ! 1)" by blast
  with g'(1,2,3) c(1) grid_ok_examples(1) b show ?thesis
    by (auto simp: cursor_examples)
qed

text \<open>
  C6. From every reachable grid, after any sequence of cursor moves the cursor is
  inside the grid; a move against the boundary the cursor stands at returns the
  grid unchanged; and the key of a move never fails.
\<close>

theorem move_cursor_stays_inside:
  assumes "reachable n g"
  shows "cur_row (fold move_cursor ds g) < ROWS \<and> cur_col (fold move_cursor ds g) < COLS \<and>
    (\<forall>d. at_boundary d g \<longrightarrow> move_cursor d g = g) \<and>
    (\<forall>d rs. key_step n (dir_key d) g rs = Inr (move_cursor d g, rs, False))"
proof -
  have "cur_row g < ROWS" "cur_col g < COLS"
    using reachable_good[OF assms] by (simp_all add: good_def grid_ok_def)
  then show ?thesis
    using moves_inside[of g ds] move_cursor_boundary key_step_move by blast
qed

theorem move_cursor_stays_inside_witness:
  "reachable 2 placed_two \<and>
   cur_row (fold move_cursor (replicate 12 Down) placed_two) < ROWS \<and>
   cur_col (fold move_cursor [Right, Left, Left, Left] placed_two) < COLS \<and>
   at_boundary Up placed_two \<and> move_cursor Up placed_two = placed_two \<and>
   key_step 2 (dir_key Up) placed_two [] = Inr (placed_two, [], False)"
proof -
  have b: "at_boundary Up placed_two"
    by (simp add: at_boundary_def placed_two_def)
  note t = move_cursor_stays_inside[OF reachable_examples(3)]
  from t[of "replicate 12 Down"] t[of "[Right, Left, Left, Left]"] b reachable_examples(3)
  show ?thesis by (simp del: move_cursor.simps fold_simps replicate.simps add: )
qed

text \<open>
  C7. For every position \<open>(row, col)\<close> of the grid, \<open>count_nbors\<close> returns the number of
  mines among the positions of the grid adjacent to it, which is at most 8. The
  positions whose cell the loops look at are exactly those adjacent positions: 3 of
  them for a corner, 5 for any other position on an edge, 8 for an inner position.
\<close>

theorem count_nbors_moore_count:
  assumes "row < ROWS" and "col < COLS" and "length (cells g) = ROWS * COLS"
  shows "count_nbors g row col = Inr (length (filter (mine_at g) (moore_nbors row col))) \<and>
    length (filter (mine_at g) (moore_nbors row col)) \<le> 8 \<and>
    set (map (nbor_pos row col) (filter (considered row col) offsets)) = set (moore_nbors row col) \<and>
    length (filter (considered row col) offsets) = length (moore_nbors row col) \<and>
    length (moore_nbors row col) =
      (if (row = 0 \<or> row = ROWS - 1) \<and> (col = 0 \<or> col = COLS - 1) then 3
       else if row = 0 \<or> row = ROWS - 1 \<or> col = 0 \<or> col = COLS - 1 then 5 else 8)"
proof -
  note len = moore_nbors_length[OF assms(1,2)]
  note cnt = considered_count[OF assms(1,2)]
  have "length (filter (mine_at g) (moore_nbors row col)) \<le> length (moore_nbors row col)"
    by (rule length_filter_le)
  also have "\<dots> \<le> 8"
    unfolding len cnt by simp
  finally have le: "length (filter (mine_at g) (moore_nbors row col)) \<le> 8" .
  show ?thesis
    using count_nbors_moore[OF assms(1,2)] le nbor_positions_set[OF assms(1,2)] len cnt
    by (simp only: simp_thms)
qed

theorem count_nbors_moore_count_witness:
  "(0::nat) < ROWS \<and> (1::nat) < COLS \<and> length (cells placed_two) = ROWS * COLS \<and>
   count_nbors placed_two 0 1 = Inr 1 \<and>
   length (filter (mine_at placed_two) (moore_nbors 0 1)) = 1 \<and>
   length (moore_nbors 0 1) = 5"
proof -
  have h: "(0::nat) < ROWS" "(1::nat) < COLS" "length (cells placed_two) = ROWS * COLS"
    by (simp_all add: ROWS_def COLS_def placed_two_def)
  note t = count_nbors_moore_count[OF h]
  from t have "length (moore_nbors 0 1) = 5"
    by (simp add: ROWS_def COLS_def)
  moreover from t count_nbors_placed_two
  have "length (filter (mine_at placed_two) (moore_nbors 0 1)) = 1"
    by simp
  ultimately show ?thesis
    using h count_nbors_placed_two by simp
qed



text \<open>
  C9. The case \<^verbatim>\<open>'r'\<close> on any grid does exactly what \<open>init_grid\<close> does on any other
  grid \<open>g0\<close> (a fresh one, say) with the same number of mines and the same draws.
  Whenever it returns, no cell is opened or flagged, \<open>open_cells_count\<close> is 0 and the
  cursor is at (0, 0); and for a number of mines below \<open>ROWS * COLS\<close> it can return.
\<close>

theorem reset_is_initialize:
  assumes "length (cells g) = ROWS * COLS" and "length (cells g0) = ROWS * COLS"
  shows "key_step n (CHR ''r'') g rs =
      (case init_grid g0 n rs of Inl e \<Rightarrow> Inl e | Inr (g', rs') \<Rightarrow> Inr (g', rs', False)) \<and>
    (\<forall>g' rs' q. key_step n (CHR ''r'') g rs = Inr (g', rs', q) \<longrightarrow>
       (\<forall>c \<in> set (cells g'). \<not> opened c \<and> \<not> flag c) \<and>
       open_cells_count g' = 0 \<and> cur_row g' = 0 \<and> cur_col g' = 0 \<and> mines_count g' = n) \<and>
    (n < ROWS * COLS \<longrightarrow> (\<exists>rs g' rs'. key_step n (CHR ''r'') g rs = Inr (g', rs', False)))"
proof (intro conjI allI impI)
  have "(clear_grid g)\<lparr>mines_count := n\<rparr> = (clear_grid g0)\<lparr>mines_count := n\<rparr>"
    using assms by (simp add: clear_grid_def clear_cells_all)
  then have "init_grid g n rs = init_grid g0 n rs"
    by (simp add: init_grid_def)
  then show "key_step n (CHR ''r'') g rs =
      (case init_grid g0 n rs of Inl e \<Rightarrow> Inl e | Inr (g', rs') \<Rightarrow> Inr (g', rs', False))"
    by (simp add: key_step_def)
next
  fix g' rs' q
  assume "key_step n (CHR ''r'') g rs = Inr (g', rs', q)"
  then have run: "init_grid g n rs = Inr (g', rs')"
    by (auto simp: key_step_def split: sum.splits)
  note res = init_grid_result[OF run assms(1)]
  show "open_cells_count g' = 0" "cur_row g' = 0" "cur_col g' = 0" "mines_count g' = n"
    by (rule res)+
  show "\<forall>c \<in> set (cells g'). \<not> opened c \<and> \<not> flag c"
    using res(1,7) by (auto simp: in_set_conv_nth)
next
  assume "n < ROWS * COLS"
  then have "\<exists>rs g' rs'. init_grid g n rs = Inr (g', rs')"
    unfolding init_grid_def randomize_grid_def using assms(1)
    by (intro randomize_loop_can_return[where k = n])
      (simp_all add: clear_grid_fields count_type_blank)
  then obtain rs g' rs' where "init_grid g n rs = Inr (g', rs')" by blast
  then have "key_step n (CHR ''r'') g rs = Inr (g', rs', False)"
    by (simp add: key_step_def)
  then show "\<exists>rs g' rs'. key_step n (CHR ''r'') g rs = Inr (g', rs', False)" by blast
qed

theorem reset_is_initialize_witness:
  "length (cells exploded) = ROWS * COLS \<and> length (cells played) = ROWS * COLS \<and>
   key_step 2 (CHR ''r'') exploded [0, 0, 10, 20, 3, 4] = Inr (placed_two, [], False)"
proof -
  have len: "length (cells exploded) = ROWS * COLS" "length (cells played) = ROWS * COLS"
    by (simp_all add: exploded_def played_def)
  from reset_is_initialize[OF len, of 2 "[0, 0, 10, 20, 3, 4]"] len show ?thesis
    by (simp add: init_placed_two)
qed

text \<open>
  C10. In every reachable grid, if some mine is opened then every cell is opened
  and \<open>open_cells_count = ROWS * COLS\<close>; and every key that returns keeps this, from
  any grid state that has it.
\<close>

theorem detonation_invariant:
  "(reachable n g \<longrightarrow> detonated_all g) \<and>
   (grid_ok g \<and> detonated_all g \<and> key_step n ch g rs = Inr (g', rs', q) \<longrightarrow>
      grid_ok g' \<and> detonated_all g')"
  using reachable_good[of n g] good_key_step[of g n ch rs g' rs' q]
  by (auto simp: good_def)

theorem detonation_invariant_witness:
  "reachable 1 exploded \<and> type (cells exploded ! 0) = MINE \<and> opened (cells exploded ! 0) \<and>
   (\<exists>j. j < ROWS * COLS \<and> \<not> opened (cells one_mine ! j)) \<and>
   open_cells_count exploded = ROWS * COLS"
proof -
  have m: "type (cells exploded ! 0) = MINE" "opened (cells exploded ! 0)"
    by (simp_all add: exploded_def dims)
  have "0 < length (cells exploded)" by (simp add: exploded_def dims)
  then have i: "cells exploded ! 0 \<in> set (cells exploded)" by (rule nth_mem)
  have "\<not> opened (cells one_mine ! 0)" by (simp add: one_mine_def dims blank_def)
  then have c: "\<exists>j. j < ROWS * COLS \<and> \<not> opened (cells one_mine ! j)"
    by (intro exI[of _ 0]) (simp add: dims)
  from detonation_invariant[of 1 exploded] reachable_examples(2)
  have "detonated_all exploded" by blast
  with m i have "open_cells_count exploded = ROWS * COLS"
    unfolding detonated_all_def by blast
  with reachable_examples(2) m c show ?thesis by blast
qed

end
